theory Spec2Isabelle
  imports Complex_Main "HOL-Library.Word"
begin

section \<open>Seam detection (services/localSplitService.ts)\<close>

text \<open>
  The detector works on the \<^verbatim>\<open>ImageData\<close> of a canvas: \<^verbatim>\<open>width\<close>, \<^verbatim>\<open>height\<close> and a
  \<^verbatim>\<open>Uint8ClampedArray\<close> of \<^verbatim>\<open>4 * width * height\<close> bytes (R, G, B, A per pixel, row major).
  JavaScript numbers are modelled as reals: the rounding of double arithmetic and of the
  stores into a \<^verbatim>\<open>Float32Array\<close> is not modelled. Indices and split positions are
  naturals; where the source subtracts below zero the subtraction is done on integers.
\<close>

type_synonym byte = "8 word"

datatype SplitDirection = HORIZONTAL | VERTICAL

record ImageData =
  width :: nat
  height :: nat
  data :: "byte list"

text \<open>The shape a browser gives every \<^verbatim>\<open>ImageData\<close>: positive sides, four bytes per pixel.\<close>

definition wellFormed :: "ImageData \<Rightarrow> bool" where
  "wellFormed img =
     (0 < width img \<and> 0 < height img \<and> length (data img) = 4 * width img * height img)"

definition axisLimit :: "ImageData \<Rightarrow> SplitDirection \<Rightarrow> nat" where
  "axisLimit img direction = (if direction = HORIZONTAL then height img else width img)"

definition crossLimit :: "ImageData \<Rightarrow> SplitDirection \<Rightarrow> nat" where
  "crossLimit img direction = (if direction = HORIZONTAL then width img else height img)"

text \<open>\<^verbatim>\<open>isHorizontal ? (i * width + j) * 4 : (j * width + i) * 4\<close>\<close>

definition pixelIdx :: "ImageData \<Rightarrow> SplitDirection \<Rightarrow> nat \<Rightarrow> nat \<Rightarrow> nat" where
  "pixelIdx img direction i j =
     (if direction = HORIZONTAL then (i * width img + j) * 4 else (j * width img + i) * 4)"

text \<open>\<^verbatim>\<open>data[idx]\<close> read as a number.\<close>

definition channel :: "ImageData \<Rightarrow> nat \<Rightarrow> real" where
  "channel img idx = real (unat (data img ! idx))"

text \<open>The values of \<^verbatim>\<open>j\<close> in \<^verbatim>\<open>for (let j = 0; j < n; j += step)\<close>.\<close>

definition sampled :: "nat \<Rightarrow> nat \<Rightarrow> nat list" where
  "sampled step n = filter (\<lambda>j. j mod step = 0) [0..<n]"

subsection \<open>Method 1: gap detection (low variance)\<close>

definition varianceStep ::
  "ImageData \<Rightarrow> SplitDirection \<Rightarrow> nat \<Rightarrow> nat \<Rightarrow> real \<times> real \<times> real \<Rightarrow> real \<times> real \<times> real" where
  "varianceStep img direction i j acc =
     (case acc of (sumVal, sumSq, count) \<Rightarrow>
        let idx = pixelIdx img direction i j;
            val = (channel img idx + channel img (idx + 1) + channel img (idx + 2)) / 3
        in (sumVal + val, sumSq + val * val, count + 1))"

definition lineVariance :: "ImageData \<Rightarrow> SplitDirection \<Rightarrow> nat \<Rightarrow> real" where
  "lineVariance img direction i =
     (case fold (varianceStep img direction i) (sampled 4 (crossLimit img direction)) (0, 0, 0) of
        (sumVal, sumSq, count) \<Rightarrow>
          let mean = sumVal / count in (sumSq / count) - (mean * mean))"

definition variances :: "ImageData \<Rightarrow> SplitDirection \<Rightarrow> real list" where
  "variances img direction = map (lineVariance img direction) [0..<axisLimit img direction]"

definition gapThreshold :: real where
  "gapThreshold = 100"

text \<open>
  Closing a run of low-variance lines that ends at \<^verbatim>\<open>gapEnd\<close>: the midpoint is recorded
  when \<^verbatim>\<open>gapEnd - gapStart >= 2\<close>.
\<close>

definition closeGap :: "nat list \<Rightarrow> nat \<Rightarrow> int \<Rightarrow> nat list" where
  "closeGap gaps gapStart gapEnd =
     (if gapEnd - int gapStart \<ge> 2 then gaps @ [nat ((int gapStart + gapEnd) div 2)] else gaps)"

text \<open>One iteration of the scan; the state is \<^verbatim>\<open>(gaps, inGap, gapStart)\<close>.\<close>

definition gapStep :: "real list \<Rightarrow> nat \<Rightarrow> nat list \<times> bool \<times> nat \<Rightarrow> nat list \<times> bool \<times> nat" where
  "gapStep vs i st =
     (case st of (gaps, inGap, gapStart) \<Rightarrow>
        if vs ! i < gapThreshold then
          (if \<not> inGap then (gaps, True, i) else (gaps, inGap, gapStart))
        else
          (if inGap then (closeGap gaps gapStart (int i - 1), False, gapStart)
           else (gaps, inGap, gapStart)))"

definition findGaps :: "real list \<Rightarrow> nat \<Rightarrow> nat list" where
  "findGaps vs limit =
     (case fold (gapStep vs) [0..<limit] ([], False, 0) of
        (gaps, inGap, gapStart) \<Rightarrow>
          if inGap then closeGap gaps gapStart (int limit - 1) else gaps)"

subsection \<open>Method 2: gradient detection (edges)\<close>

definition diffStep :: "ImageData \<Rightarrow> SplitDirection \<Rightarrow> nat \<Rightarrow> nat \<Rightarrow> real \<Rightarrow> real" where
  "diffStep img direction i j diffSum =
     (let idx1 = pixelIdx img direction i j;
          idx2 = pixelIdx img direction (i - 1) j;
          rDiff = \<bar>channel img idx1 - channel img idx2\<bar>;
          gDiff = \<bar>channel img (idx1 + 1) - channel img (idx2 + 1)\<bar>;
          bDiff = \<bar>channel img (idx1 + 2) - channel img (idx2 + 2)\<bar>
      in diffSum + (rDiff + gDiff + bDiff))"

definition lineScore :: "ImageData \<Rightarrow> SplitDirection \<Rightarrow> nat \<Rightarrow> real" where
  "lineScore img direction i =
     fold (diffStep img direction i) (sampled 2 (crossLimit img direction)) 0
       / (real (crossLimit img direction) / 2)"

text \<open>\<^verbatim>\<open>scores\<close> starts as zeros; the loop fills the indices from 1 on.\<close>

definition scores :: "ImageData \<Rightarrow> SplitDirection \<Rightarrow> real list" where
  "scores img direction =
     map (\<lambda>i. if 1 \<le> i then lineScore img direction i else 0) [0..<axisLimit img direction]"

text \<open>The inner loop of the smoothing: the sum of \<^verbatim>\<open>scores[i + k]\<close> for \<^verbatim>\<open>k = -w .. w\<close>.\<close>

definition windowSum :: "real list \<Rightarrow> nat \<Rightarrow> nat \<Rightarrow> real" where
  "windowSum sc w i = fold (\<lambda>k sumVal. sumVal + sc ! nat (int i + k)) [- int w..int w] 0"

text \<open>
  \<^verbatim>\<open>smoothedScores = new Float32Array(limit)\<close> starts as zeros, and only the indices
  \<^verbatim>\<open>smoothWindow <= i < limit - smoothWindow\<close> are written.
\<close>

definition smoothScores :: "nat \<Rightarrow> real list \<Rightarrow> nat \<Rightarrow> real list" where
  "smoothScores w sc limit =
     map (\<lambda>i. if w \<le> i \<and> int i < int limit - int w then windowSum sc w i / (2 * real w + 1) else 0)
       [0..<limit]"

text \<open>
  The earlier, gradient-only detector (the second \<^verbatim>\<open>detectAxis\<close> of the repository)
  starts from a copy, \<^verbatim>\<open>smoothedScores = [...scores]\<close>, and writes the indices
  \<^verbatim>\<open>smoothWindow <= i < limit - smoothWindow\<close> for its own window, which is 3
  (\<open>smoothWindowLegacy\<close>).
\<close>

definition smoothScoresLegacy :: "nat \<Rightarrow> real list \<Rightarrow> nat \<Rightarrow> real list" where
  "smoothScoresLegacy w sc limit =
     map (\<lambda>i. if w \<le> i \<and> int i < int limit - int w then windowSum sc w i / (2 * real w + 1)
               else sc ! i)
       [0..<limit]"

definition smoothWindow :: nat where
  "smoothWindow = 2"

definition smoothWindowLegacy :: nat where
  "smoothWindowLegacy = 3"

text \<open>\<^verbatim>\<open>Math.max(50, limit / 15)\<close>\<close>

definition minDistance :: "nat \<Rightarrow> real" where
  "minDistance limit = max 50 (real limit / 15)"

text \<open>The local-maximum test: no index of \<^verbatim>\<open>[max(0, i - 10), min(limit, i + 10))\<close> scores higher.\<close>

definition isLocalMax :: "real list \<Rightarrow> nat \<Rightarrow> nat \<Rightarrow> bool" where
  "isLocalMax sm limit i =
     (let localCheck = 10;
          startIdx = max 0 (int i - localCheck);
          endIdx = min (int limit) (int i + localCheck)
      in list_all (\<lambda>k. \<not> sm ! k > sm ! i) [nat startIdx..<nat endIdx])"

text \<open>
  The greedy spacing filter: \<^verbatim>\<open>while (candidates.length > 0)\<close> takes the first candidate,
  appends its index to \<^verbatim>\<open>selected\<close> and keeps the candidates at distance at least
  \<^verbatim>\<open>minDistance\<close>. A candidate is a pair \<^verbatim>\<open>(idx, score)\<close>.
\<close>

function selectLoop :: "nat \<Rightarrow> (nat \<times> real) list \<Rightarrow> nat list \<Rightarrow> nat list" where
  "selectLoop limit [] selected = selected"
| "selectLoop limit (best # rest) selected =
     selectLoop limit
       (filter (\<lambda>c. \<bar>real (fst c) - real (fst best)\<bar> \<ge> minDistance limit) (best # rest))
       (selected @ [fst best])"
  by pat_completeness auto
termination
proof (relation "measure (\<lambda>(limit, candidates, selected). length candidates)")
  show "wf (measure (\<lambda>(limit, candidates, selected). length candidates))"
    by simp
next
  fix limit :: nat and best :: "nat \<times> real" and rest :: "(nat \<times> real) list" and selected :: "nat list"
  have "\<not> \<bar>real (fst best) - real (fst best)\<bar> \<ge> minDistance limit"
    by (simp add: minDistance_def)
  then have "length (filter (\<lambda>c. \<bar>real (fst c) - real (fst best)\<bar> \<ge> minDistance limit) (best # rest))
               \<le> length rest"
    by (simp add: le_SucI)
  then show "((limit, filter (\<lambda>c. \<bar>real (fst c) - real (fst best)\<bar> \<ge> minDistance limit) (best # rest),
               selected @ [fst best]), (limit, best # rest, selected))
             \<in> measure (\<lambda>(limit, candidates, selected). length candidates)"
    by simp
qed

text \<open>
  \<^verbatim>\<open>edges.map(idx => ({idx, score: smoothedScores[idx]}))\<close>, sorted by score descending
  (the sort of an array is stable), filtered greedily, and sorted by position again.
\<close>

definition filterEdges :: "nat \<Rightarrow> real list \<Rightarrow> nat list \<Rightarrow> nat list" where
  "filterEdges limit sm edges =
     (if length edges > 0 then
        sort (selectLoop limit (sort_key (\<lambda>c. - snd c) (map (\<lambda>idx. (idx, sm ! idx)) edges)) [])
      else [])"

definition detectPeaks :: "real list \<Rightarrow> nat \<Rightarrow> nat list" where
  "detectPeaks sm limit =
     (let nonZeroScores = filter (\<lambda>s. s > 0) sm in
      if length nonZeroScores > 0 then
        let mean = fold (\<lambda>b a. a + b) nonZeroScores 0 / real (length nonZeroScores);
            variance = fold (\<lambda>b a. a + (b - mean)\<^sup>2) nonZeroScores 0 / real (length nonZeroScores);
            stdDev = sqrt variance;
            threshold = mean + 3.5 * stdDev;
            edges = filter (\<lambda>i. sm ! i > threshold \<and> isLocalMax sm limit i) [1..<limit - 1]
        in filterEdges limit sm edges
      else [])"

subsection \<open>Combining the two channels\<close>

text \<open>\<^verbatim>\<open>const margin = limit * 0.02\<close>\<close>

definition margin :: "nat \<Rightarrow> real" where
  "margin limit = real limit * 0.02"

definition addEdge :: "nat \<Rightarrow> nat \<Rightarrow> nat list \<Rightarrow> nat list" where
  "addEdge limit edge finalSplits =
     (if real edge \<le> margin limit \<or> real edge \<ge> real limit - margin limit then finalSplits
      else if list_ex (\<lambda>split. \<bar>int split - int edge\<bar> < 20) finalSplits then finalSplits
      else finalSplits @ [edge])"

definition combineSplits :: "nat \<Rightarrow> nat list \<Rightarrow> nat list \<Rightarrow> nat list" where
  "combineSplits limit gaps edges =
     sort (fold (addEdge limit) edges
             (filter (\<lambda>gap. real gap > margin limit \<and> real gap < real limit - margin limit) gaps))"

definition detectAxis :: "ImageData \<Rightarrow> SplitDirection \<Rightarrow> nat list" where
  "detectAxis img direction =
     (let limit = axisLimit img direction;
          gaps = findGaps (variances img direction) limit;
          smoothedScores = smoothScores smoothWindow (scores img direction) limit;
          edges = detectPeaks smoothedScores limit
      in combineSplits limit gaps edges)"

text \<open>\<^verbatim>\<open>detectSeamsLocal\<close> resolves to \<^verbatim>\<open>{rowSplits, colSplits}\<close>.\<close>

definition detectSplits :: "ImageData \<Rightarrow> nat list \<times> nat list" where
  "detectSplits img = (detectAxis img HORIZONTAL, detectAxis img VERTICAL)"

section \<open>Flood fill (services/imageProcessing.ts)\<close>

text \<open>
  \<^verbatim>\<open>floodFill(ctx, startX, startY, tolerance)\<close> reads the whole canvas with
  \<^verbatim>\<open>getImageData\<close>, erases on that buffer and writes it back with \<^verbatim>\<open>putImageData\<close>: the
  model takes the \<^verbatim>\<open>ImageData\<close> of the canvas and returns the one written back (the
  unchanged one on the early return). The sides and the buffer of the image are \<open>w\<close>,
  \<open>h\<close> and \<open>d\<close> below, the source's \<^verbatim>\<open>width\<close>, \<^verbatim>\<open>height\<close> and \<^verbatim>\<open>data\<close>.

  Reading a typed array beyond its length gives \<^verbatim>\<open>undefined\<close> (here \<open>None\<close>); arithmetic
  on it gives \<^verbatim>\<open>NaN\<close>, every comparison with \<^verbatim>\<open>NaN\<close> is false, and
  \<^verbatim>\<open>undefined === 0\<close> is false. A write beyond the length is ignored, as \<open>xs[i := v]\<close> is.
\<close>

definition getPixelIndex :: "nat \<Rightarrow> nat \<Rightarrow> nat \<Rightarrow> nat" where
  "getPixelIndex w x y = (y * w + x) * 4"

definition readByte :: "byte list \<Rightarrow> nat \<Rightarrow> byte option" where
  "readByte d i = (if i < length d then Some (d ! i) else None)"

text \<open>\<^verbatim>\<open>Math.abs(r - startR) <= tolerance\<close>, false when either side is \<^verbatim>\<open>undefined\<close>.\<close>

definition withinTolerance :: "byte option \<Rightarrow> byte option \<Rightarrow> real \<Rightarrow> bool" where
  "withinTolerance c start tolerance =
     (case (c, start) of
        (Some v, Some s) \<Rightarrow> real_of_int \<bar>uint v - uint s\<bar> \<le> tolerance
      | _ \<Rightarrow> False)"

type_synonym startColor = "byte option \<times> byte option \<times> byte option"

definition colorMatch :: "byte list \<Rightarrow> startColor \<Rightarrow> real \<Rightarrow> nat \<Rightarrow> bool" where
  "colorMatch d start tolerance idx =
     (case start of (startR, startG, startB) \<Rightarrow>
        let r = readByte d idx;
            g = readByte d (idx + 1);
            b = readByte d (idx + 2);
            a = readByte d (idx + 3)
        in if a = Some 0 then False
           else withinTolerance r startR tolerance
              \<and> withinTolerance g startG tolerance
              \<and> withinTolerance b startB tolerance)"

text \<open>
  The four conditional pushes, left, right, up, down. The head of the list is the top of the
  stack, so the position pushed last is popped first.
\<close>

definition pushNeighbors :: "nat \<Rightarrow> nat \<Rightarrow> nat \<Rightarrow> nat \<Rightarrow> (nat \<times> nat) list \<Rightarrow> (nat \<times> nat) list" where
  "pushNeighbors w h x y stack =
     (let s1 = (if x > 0 then (x - 1, y) # stack else stack);
          s2 = (if int x < int w - 1 then (x + 1, y) # s1 else s1);
          s3 = (if y > 0 then (x, y - 1) # s2 else s2);
          s4 = (if int y < int h - 1 then (x, y + 1) # s3 else s3)
      in s4)"

text \<open>
  The loop ends for every stack, also one holding positions outside the image: a position
  pushed lies inside the image or at most as far out as a position already on the stack, so
  the positions that can still be visited form a finite box, and each iteration either visits
  a new position of the box or shortens the stack.
\<close>

definition reachBox :: "nat \<Rightarrow> nat \<Rightarrow> (nat \<times> nat) list \<Rightarrow> (nat \<times> nat) set" where
  "reachBox w h stack =
     ({..<w} \<union> (\<Union>p\<in>set stack. {..fst p})) \<times> ({..<h} \<union> (\<Union>p\<in>set stack. {..snd p}))"

lemma finite_reachBox: "finite (reachBox w h stack)"
  by (simp add: reachBox_def)

lemma reachBox_tail: "reachBox w h stack \<subseteq> reachBox w h (p # stack)"
  by (auto simp add: reachBox_def)

lemma reachBox_top: "(x, y) \<in> reachBox w h ((x, y) # stack)"
  by (simp add: reachBox_def)

lemma set_pushNeighbors:
  "q \<in> set (pushNeighbors w h x y stack) \<Longrightarrow>
     q \<in> set stack \<or> ((fst q \<le> x \<or> fst q < w) \<and> (snd q \<le> y \<or> snd q < h))"
  by (auto simp add: pushNeighbors_def Let_def split: if_splits)

lemma reachBox_push:
  "reachBox w h (pushNeighbors w h x y stack) \<subseteq> reachBox w h ((x, y) # stack)"
proof
  fix p assume p: "p \<in> reachBox w h (pushNeighbors w h x y stack)"
  obtain a b where ab: "p = (a, b)" by (cases p)
  from p ab have "a < w \<or> (\<exists>q\<in>set (pushNeighbors w h x y stack). a \<le> fst q)"
    and "b < h \<or> (\<exists>q\<in>set (pushNeighbors w h x y stack). b \<le> snd q)"
    by (auto simp add: reachBox_def)
  then have "a < w \<or> a \<le> x \<or> (\<exists>q\<in>set stack. a \<le> fst q)"
    and "b < h \<or> b \<le> y \<or> (\<exists>q\<in>set stack. b \<le> snd q)"
    using set_pushNeighbors[of _ w h x y stack] by (meson le_trans less_le_trans not_le order.strict_trans2)+
  then show "p \<in> reachBox w h ((x, y) # stack)"
    by (auto simp add: reachBox_def ab)
qed

lemma length_pushNeighbors: "length (pushNeighbors w h x y stack) \<le> length stack + 4"
  by (simp add: pushNeighbors_def Let_def)

definition floodMeasure :: "nat \<Rightarrow> nat \<Rightarrow> (nat \<times> nat) list \<Rightarrow> (nat \<times> nat) set \<Rightarrow> nat" where
  "floodMeasure w h stack visited =
     5 * card (reachBox w h stack - visited) + length stack"

lemma floodMeasure_pop:
  "p \<in> visited \<Longrightarrow> floodMeasure w h stack visited < floodMeasure w h (p # stack) visited"
proof -
  have "card (reachBox w h stack - visited) \<le> card (reachBox w h (p # stack) - visited)"
    using reachBox_tail[of w h stack p] by (intro card_mono) (auto simp add: finite_reachBox)
  then show ?thesis by (simp add: floodMeasure_def)
qed

lemma card_box_visit:
  assumes "(x, y) \<notin> visited" and "reachBox w h stack' \<subseteq> reachBox w h ((x, y) # stack)"
  shows "card (reachBox w h stack' - insert (x, y) visited)
           < card (reachBox w h ((x, y) # stack) - visited)"
proof (rule psubset_card_mono)
  show "finite (reachBox w h ((x, y) # stack) - visited)"
    by (simp add: finite_reachBox)
  show "reachBox w h stack' - insert (x, y) visited \<subset> reachBox w h ((x, y) # stack) - visited"
    using assms reachBox_top[of x y w h stack] by auto
qed

text \<open>
  \<^verbatim>\<open>while (stack.length > 0)\<close>: the state is the stack, the \<^verbatim>\<open>visited\<close> set (its string keys
  \<^verbatim>\<open>x,y\<close> are the positions) and the buffer.
\<close>

function floodLoop ::
  "nat \<Rightarrow> nat \<Rightarrow> startColor \<Rightarrow> real \<Rightarrow> (nat \<times> nat) list \<Rightarrow> (nat \<times> nat) set \<Rightarrow> byte list \<Rightarrow> byte list" where
  "floodLoop w h start tolerance [] visited d = d"
| "floodLoop w h start tolerance ((x, y) # stack) visited d =
     (if (x, y) \<in> visited then floodLoop w h start tolerance stack visited d
      else
        let idx = getPixelIndex w x y in
        if colorMatch d start tolerance idx then
          floodLoop w h start tolerance (pushNeighbors w h x y stack)
            (insert (x, y) visited) (d[idx + 3 := 0])
        else floodLoop w h start tolerance stack (insert (x, y) visited) d)"
  by pat_completeness auto
termination
proof (relation "measure (\<lambda>(w, h, start, tolerance, stack, visited, d).
                   floodMeasure w h stack visited)", goal_cases)
  case 1
  show ?case by simp
next
  case (2 w h start tolerance x y stack visited d)
  then show ?case by (simp add: floodMeasure_pop)
next
  case (3 w h start tolerance x y stack visited d idx)
  have "card (reachBox w h (pushNeighbors w h x y stack) - insert (x, y) visited)
          < card (reachBox w h ((x, y) # stack) - visited)"
    using 3(1) reachBox_push by (rule card_box_visit)
  then show ?case
    using length_pushNeighbors[of w h x y stack] by (simp add: floodMeasure_def)
next
  case (4 w h start tolerance x y stack visited d idx)
  have "card (reachBox w h stack - insert (x, y) visited)
          < card (reachBox w h ((x, y) # stack) - visited)"
    using 4(1) reachBox_tail by (rule card_box_visit)
  then show ?case by (simp add: floodMeasure_def)
qed

definition floodFill :: "ImageData \<Rightarrow> nat \<Rightarrow> nat \<Rightarrow> real \<Rightarrow> ImageData" where
  "floodFill img startX startY tolerance =
     (let w = width img;
          h = height img;
          d = data img;
          startIdx = getPixelIndex w startX startY;
          startR = readByte d startIdx;
          startG = readByte d (startIdx + 1);
          startB = readByte d (startIdx + 2);
          startA = readByte d (startIdx + 3)
      in if startA = Some 0 then img
         else img\<lparr>data := floodLoop w h (startR, startG, startB) tolerance [(startX, startY)] {} d\<rparr>)"

section \<open>Largest connected component (services/imageProcessing.ts)\<close>

text \<open>
  The mask is a \<^verbatim>\<open>Float32Array\<close>. Its values are only compared with zero and copied, so
  a value is \<open>NaN\<close> or a real; \<^verbatim>\<open>undefined > 0\<close> and \<^verbatim>\<open>NaN > 0\<close> are false. The sides
  \<^verbatim>\<open>width\<close> and \<^verbatim>\<open>height\<close> are \<open>w\<close> and \<open>h\<close>, and \<^verbatim>\<open>size\<close> is \<open>sz\<close>.
  \<^verbatim>\<open>visited\<close> is a \<^verbatim>\<open>Uint8Array\<close> and \<^verbatim>\<open>labels\<close> an \<^verbatim>\<open>Int32Array\<close>: a label is stored
  modulo \<open>2^32\<close> and read back signed. \<^verbatim>\<open>componentSizes\<close> is a \<^verbatim>\<open>Map\<close> iterated in
  insertion order; its keys are the successive labels, so it is a list of pairs.
\<close>

datatype f32 = NaN | Val real

text \<open>
  \<^verbatim>\<open>new Uint8Array(size)\<close> throws a \<^verbatim>\<open>RangeError\<close> when \<^verbatim>\<open>size\<close> is not a valid array
  length: negative, or above \<open>2\<^sup>5\<^sup>3 - 1\<close>. An engine also throws it for a length it cannot
  allocate; that limit depends on the engine and the memory at hand and is not modelled, and
  the results below are stated for sizes under \<open>2\<^sup>3\<^sup>1\<close>.
\<close>

datatype error = RangeError

text \<open>\<^verbatim>\<open>maskData[idx]\<close>, and the test \<^verbatim>\<open>maskData[idx] > 0\<close>.\<close>

definition readMask :: "f32 list \<Rightarrow> nat \<Rightarrow> f32 option" where
  "readMask maskData idx = (if idx < length maskData then Some (maskData ! idx) else None)"

definition isForeground :: "f32 list \<Rightarrow> nat \<Rightarrow> bool" where
  "isForeground maskData idx =
     (case readMask maskData idx of Some (Val v) \<Rightarrow> v > 0 | _ \<Rightarrow> False)"

text \<open>\<^verbatim>\<open>visited[idx] === 0\<close>, false beyond the array.\<close>

definition unvisited :: "byte list \<Rightarrow> nat \<Rightarrow> bool" where
  "unvisited visited idx = (idx < length visited \<and> visited ! idx = 0)"

text \<open>The number read back from an \<^verbatim>\<open>Int32Array\<close> after storing \<open>n\<close>.\<close>

definition toInt32 :: "int \<Rightarrow> int" where
  "toInt32 n = sint (word_of_int n :: 32 word)"

text \<open>
  The search from one pixel. Its state is \<^verbatim>\<open>(visited, labels, queue)\<close> with the counters
  \<^verbatim>\<open>head\<close> and \<^verbatim>\<open>count\<close>; \<open>visitNeighbor\<close> is the body of the loop over the four
  neighbours \<^verbatim>\<open>{nx, ny}\<close>, whose coordinates may fall outside the grid.
\<close>

type_synonym bfsState = "byte list \<times> int list \<times> nat list"

definition neighbors :: "int \<Rightarrow> int \<Rightarrow> (int \<times> int) list" where
  "neighbors cx cy = [(cx - 1, cy), (cx + 1, cy), (cx, cy - 1), (cx, cy + 1)]"

definition visitNeighbor :: "f32 list \<Rightarrow> nat \<Rightarrow> nat \<Rightarrow> int \<Rightarrow> int \<times> int \<Rightarrow> bfsState \<Rightarrow> bfsState" where
  "visitNeighbor maskData w h currentLabel n st =
     (case n of (nx, ny) \<Rightarrow>
      case st of (visited, labels, queue) \<Rightarrow>
        if nx \<ge> 0 \<and> nx < int w \<and> ny \<ge> 0 \<and> ny < int h then
          let nIdx = nat (ny * int w + nx) in
          if isForeground maskData nIdx \<and> unvisited visited nIdx then
            (visited[nIdx := 1], labels[nIdx := toInt32 currentLabel], queue @ [nIdx])
          else st
        else st)"

text \<open>
  The search ends: each iteration takes one entry from the queue, and each entry added marks
  a pixel that was unmarked. \<open>pending\<close> counts the unmarked pixels and the entries waiting.
\<close>

definition pending :: "nat \<Rightarrow> bfsState \<Rightarrow> nat" where
  "pending head st =
     length (filter (\<lambda>v. v = 0) (fst st)) + (length (snd (snd st)) - head)"

lemma length_filter_update:
  assumes "n < length xs" and "P (xs ! n)" and "\<not> P y"
  shows "Suc (length (filter P (xs[n := y]))) = length (filter P xs)"
proof -
  have "length (filter P xs) = length (filter P (take n xs @ xs ! n # drop (Suc n) xs))"
    using assms(1) by (simp only: id_take_nth_drop[symmetric])
  also have "\<dots> = Suc (length (filter P (take n xs)) + length (filter P (drop (Suc n) xs)))"
    using assms(2) by simp
  finally have 1: "length (filter P xs)
      = Suc (length (filter P (take n xs)) + length (filter P (drop (Suc n) xs)))" .
  have "length (filter P (xs[n := y])) = length (filter P (take n xs @ y # drop (Suc n) xs))"
    using assms(1) by (simp only: upd_conv_take_nth_drop)
  also have "\<dots> = length (filter P (take n xs)) + length (filter P (drop (Suc n) xs))"
    using assms(3) by simp
  finally show ?thesis using 1 by simp
qed

lemma visitNeighbor_pending:
  "length (filter (\<lambda>v. v = 0) (fst (visitNeighbor maskData w h currentLabel n st)))
     + length (snd (snd (visitNeighbor maskData w h currentLabel n st)))
   = length (filter (\<lambda>v. v = 0) (fst st)) + length (snd (snd st))"
proof (cases st)
  case (fields visited labels queue)
  obtain nx ny where n: "n = (nx, ny)" by (cases n)
  show ?thesis
  proof (cases "nx \<ge> 0 \<and> nx < int w \<and> ny \<ge> 0 \<and> ny < int h \<and> isForeground maskData (nat (ny * int w + nx))
                  \<and> unvisited visited (nat (ny * int w + nx))")
    case True
    then have "Suc (length (filter (\<lambda>v. v = 0) (visited[nat (ny * int w + nx) := 1])))
                 = length (filter (\<lambda>v. v = 0) visited)"
      by (intro length_filter_update) (simp_all add: unvisited_def)
    with True show ?thesis
      by (simp add: visitNeighbor_def fields n Let_def)
  next
    case False
    then show ?thesis
      by (auto simp add: visitNeighbor_def fields n Let_def)
  qed
qed

lemma fold_visitNeighbor_pending:
  "length (filter (\<lambda>v. v = 0) (fst (fold (visitNeighbor maskData w h currentLabel) ns st)))
     + length (snd (snd (fold (visitNeighbor maskData w h currentLabel) ns st)))
   = length (filter (\<lambda>v. v = 0) (fst st)) + length (snd (snd st))"
  by (induction ns arbitrary: st) (simp_all add: visitNeighbor_pending)

lemma visitNeighbor_queue_grows:
  "length (snd (snd st)) \<le> length (snd (snd (visitNeighbor maskData w h currentLabel n st)))"
  by (cases st; cases n) (simp add: visitNeighbor_def Let_def)

lemma fold_visitNeighbor_queue_grows:
  "length (snd (snd st)) \<le> length (snd (snd (fold (visitNeighbor maskData w h currentLabel) ns st)))"
proof (induction ns arbitrary: st)
  case Nil
  show ?case by simp
next
  case (Cons n ns)
  show ?case
    using Cons[of "visitNeighbor maskData w h currentLabel n st"]
      visitNeighbor_queue_grows[of st maskData w h currentLabel n]
    by simp
qed

text \<open>
  \<^verbatim>\<open>while (head < queue.length)\<close>. The loop runs only for a pixel of the grid, so \<open>w\<close> is
  positive whenever \<^verbatim>\<open>currIdx % width\<close> is computed.
\<close>

function bfs :: "f32 list \<Rightarrow> nat \<Rightarrow> nat \<Rightarrow> int \<Rightarrow> nat \<Rightarrow> nat \<Rightarrow> bfsState \<Rightarrow> byte list \<times> int list \<times> nat" where
  "bfs maskData w h currentLabel head count st =
     (if head < length (snd (snd st)) then
        let currIdx = snd (snd st) ! head;
            cx = int (currIdx mod w);
            cy = int (currIdx div w)
        in bfs maskData w h currentLabel (head + 1) (count + 1)
             (fold (visitNeighbor maskData w h currentLabel) (neighbors cx cy) st)
      else (fst st, fst (snd st), count))"
  by pat_completeness auto
termination
proof (relation "measure (\<lambda>(maskData, w, h, currentLabel, head, count, st). pending head st)", goal_cases)
  case 1
  show ?case by simp
next
  case (2 maskData w h currentLabel head count st currIdx cx cy)
  let ?st' = "fold (visitNeighbor maskData w h currentLabel) (neighbors cx cy) st"
  have "length (filter (\<lambda>v. v = 0) (fst ?st')) + length (snd (snd ?st'))
          = length (filter (\<lambda>v. v = 0) (fst st)) + length (snd (snd st))"
    by (rule fold_visitNeighbor_pending)
  moreover have "length (snd (snd st)) \<le> length (snd (snd ?st'))"
    by (rule fold_visitNeighbor_queue_grows)
  ultimately show ?case
    using 2(1) by (simp add: pending_def)
qed

text \<open>The equation of \<open>bfs\<close> is unfolded by hand, one iteration at a time.\<close>

declare bfs.simps [simp del]

text \<open>
  The raster scan, \<^verbatim>\<open>for y\<close> around \<^verbatim>\<open>for x\<close>. Its state is
  \<^verbatim>\<open>(visited, labels, currentLabel, componentSizes)\<close>.
\<close>

type_synonym scanState = "byte list \<times> int list \<times> int \<times> (int \<times> nat) list"

definition scanPixel :: "f32 list \<Rightarrow> nat \<Rightarrow> nat \<Rightarrow> nat \<Rightarrow> nat \<Rightarrow> scanState \<Rightarrow> scanState" where
  "scanPixel maskData w h y x st =
     (case st of (visited, labels, currentLabel, componentSizes) \<Rightarrow>
        let idx = y * w + x in
        if isForeground maskData idx \<and> unvisited visited idx then
          (case bfs maskData w h currentLabel 0 0
                  (visited[idx := 1], labels[idx := toInt32 currentLabel], [idx]) of
             (visited', labels', count) \<Rightarrow>
               (visited', labels', currentLabel + 1, componentSizes @ [(currentLabel, count)]))
        else st)"

definition labelComponents :: "f32 list \<Rightarrow> nat \<Rightarrow> nat \<Rightarrow> nat \<Rightarrow> scanState" where
  "labelComponents maskData w h sz =
     fold (\<lambda>y. fold (scanPixel maskData w h y) [0..<w]) [0..<h]
       (replicate sz 0, replicate sz 0, 1, [])"

text \<open>
  \<^verbatim>\<open>componentSizes.forEach\<close>, starting from \<^verbatim>\<open>maxLabel = -1\<close> and \<^verbatim>\<open>maxSize = -1\<close>: an entry
  replaces the best one only when its size is strictly larger.
\<close>

definition largestStep :: "int \<times> nat \<Rightarrow> int \<times> int \<Rightarrow> int \<times> int" where
  "largestStep entry best =
     (case entry of (label, sz) \<Rightarrow>
      case best of (maxLabel, maxSize) \<Rightarrow>
        if int sz > maxSize then (label, int sz) else (maxLabel, maxSize))"

definition findLargest :: "(int \<times> nat) list \<Rightarrow> int \<times> int" where
  "findLargest componentSizes = fold largestStep componentSizes (- 1, - 1)"

text \<open>
  The new mask: the value of the mask where the label is \<^verbatim>\<open>maxLabel\<close>, and \<open>-10\<close> elsewhere.
  Storing \<^verbatim>\<open>undefined\<close> in a \<^verbatim>\<open>Float32Array\<close> gives \<open>NaN\<close>.
\<close>

definition background :: f32 where
  "background = Val (- 10)"

definition newMask :: "f32 list \<Rightarrow> int list \<Rightarrow> int \<Rightarrow> nat \<Rightarrow> f32 list" where
  "newMask maskData labels maxLabel sz =
     map (\<lambda>i. if labels ! i = maxLabel
               then (case readMask maskData i of Some v \<Rightarrow> v | None \<Rightarrow> NaN)
               else background)
       [0..<sz]"

text \<open>
  \<^verbatim>\<open>width\<close> and \<^verbatim>\<open>height\<close> are any integers. When their product is not a valid array
  length the first allocation throws, before the mask is touched; otherwise the loops run over
  \<open>[0, height)\<close> and \<open>[0, width)\<close>, which are empty for a side that is not positive.
\<close>

definition maxArrayLength :: int where
  "maxArrayLength = 2 ^ 53 - 1"

definition filterLargestComponent :: "f32 list \<Rightarrow> int \<Rightarrow> int \<Rightarrow> error + f32 list" where
  "filterLargestComponent maskData w h =
     (let sz = w * h in
      if sz < 0 \<or> sz > maxArrayLength then Inl RangeError
      else
        case labelComponents maskData (nat w) (nat h) (nat sz) of
          (visited, labels, currentLabel, componentSizes) \<Rightarrow>
            case findLargest componentSizes of
              (maxLabel, maxSize) \<Rightarrow> Inr (newMask maskData labels maxLabel (nat sz)))"

section \<open>Notions used to state the properties\<close>

subsection \<open>Seam detection\<close>

text \<open>Two positions are far apart when their distance is at least \<^verbatim>\<open>minDistance\<close>.\<close>

definition farApart :: "nat \<Rightarrow> nat \<Rightarrow> nat \<Rightarrow> bool" where
  "farApart limit a b = (minDistance limit \<le> \<bar>real a - real b\<bar>)"

text \<open>A split position strictly inside \<open>(margin, limit - margin)\<close>.\<close>

definition inMargin :: "nat \<Rightarrow> nat \<Rightarrow> bool" where
  "inMargin limit s = (margin limit < real s \<and> real s < real limit - margin limit)"

text \<open>
  What holds of the state \<^verbatim>\<open>(gaps, inGap, gapStart)\<close> of the gap scan before line \<open>n\<close>:
  the midpoints found are increasing and lie before the open run, or before \<open>n\<close>.
\<close>

definition gapInv :: "nat \<Rightarrow> nat list \<times> bool \<times> nat \<Rightarrow> bool" where
  "gapInv n st =
     (case st of (gaps, inGap, gapStart) \<Rightarrow>
        sorted_wrt (<) gaps \<and>
        (if inGap then gapStart < n \<and> (\<forall>g\<in>set gaps. g < gapStart) else (\<forall>g\<in>set gaps. g < n)))"

text \<open>Every pixel of the image has the colour \<open>(r, g, b)\<close>; the alpha bytes are free.\<close>

definition uniform :: "ImageData \<Rightarrow> byte \<Rightarrow> byte \<Rightarrow> byte \<Rightarrow> bool" where
  "uniform img r g b =
     (\<forall>k < width img * height img.
        data img ! (4 * k) = r \<and> data img ! (4 * k + 1) = g \<and> data img ! (4 * k + 2) = b)"

text \<open>Two images of the same shape that agree on every R, G and B byte.\<close>

definition sameRGB :: "ImageData \<Rightarrow> ImageData \<Rightarrow> bool" where
  "sameRGB img1 img2 =
     (width img1 = width img2 \<and> height img1 = height img2
      \<and> length (data img1) = length (data img2)
      \<and> (\<forall>i < length (data img1). i mod 4 \<noteq> 3 \<longrightarrow> data img1 ! i = data img2 ! i))"

text \<open>
  Two images of the same sides that agree on the R, G and B bytes of every pixel of the grid,
  whatever the lengths of their buffers.
\<close>

definition agreeRGB :: "ImageData \<Rightarrow> ImageData \<Rightarrow> bool" where
  "agreeRGB img1 img2 =
     (width img1 = width img2 \<and> height img1 = height img2
      \<and> (\<forall>k < width img1 * height img1.
             data img1 ! (4 * k) = data img2 ! (4 * k)
           \<and> data img1 ! (4 * k + 1) = data img2 ! (4 * k + 1)
           \<and> data img1 ! (4 * k + 2) = data img2 ! (4 * k + 2)))"

subsection \<open>Flood fill\<close>

text \<open>A pixel position \<open>(x, y)\<close> inside the image, and the index of its first byte.\<close>

definition inBounds :: "ImageData \<Rightarrow> nat \<times> nat \<Rightarrow> bool" where
  "inBounds img p = (fst p < width img \<and> snd p < height img)"

definition pixelAt :: "ImageData \<Rightarrow> nat \<times> nat \<Rightarrow> nat" where
  "pixelAt img p = getPixelIndex (width img) (fst p) (snd p)"

text \<open>
  The match predicate of the property, on the buffer as it is before the call: the pixel is
  not transparent and each of R, G, B is within the tolerance of the seed's.
\<close>

definition matchesSeed :: "ImageData \<Rightarrow> nat \<times> nat \<Rightarrow> real \<Rightarrow> nat \<times> nat \<Rightarrow> bool" where
  "matchesSeed img seed tolerance p =
     (data img ! (pixelAt img p + 3) \<noteq> 0
      \<and> real_of_int \<bar>uint (data img ! pixelAt img p) - uint (data img ! pixelAt img seed)\<bar> \<le> tolerance
      \<and> real_of_int \<bar>uint (data img ! (pixelAt img p + 1)) - uint (data img ! (pixelAt img seed + 1))\<bar> \<le> tolerance
      \<and> real_of_int \<bar>uint (data img ! (pixelAt img p + 2)) - uint (data img ! (pixelAt img seed + 2))\<bar> \<le> tolerance)"

text \<open>Two positions next to each other, left, right, above or below.\<close>

definition neighbour4 :: "nat \<times> nat \<Rightarrow> nat \<times> nat \<Rightarrow> bool" where
  "neighbour4 p q =
     ((snd p = snd q \<and> (fst p + 1 = fst q \<or> fst q + 1 = fst p))
      \<or> (fst p = fst q \<and> (snd p + 1 = snd q \<or> snd q + 1 = snd p)))"

text \<open>
  The pixels reachable from the seed by a 4-connected path of pixels inside the image that
  all match the seed, the seed included.
\<close>

inductive reachable :: "ImageData \<Rightarrow> nat \<times> nat \<Rightarrow> real \<Rightarrow> nat \<times> nat \<Rightarrow> bool"
  for img :: ImageData and seed :: "nat \<times> nat" and tolerance :: real where
  reach_seed: "inBounds img seed \<Longrightarrow> matchesSeed img seed tolerance seed \<Longrightarrow> reachable img seed tolerance seed"
| reach_step: "reachable img seed tolerance p \<Longrightarrow> neighbour4 p q \<Longrightarrow> inBounds img q
                 \<Longrightarrow> matchesSeed img seed tolerance q \<Longrightarrow> reachable img seed tolerance q"

text \<open>The colour read at the seed, \<^verbatim>\<open>startR\<close>, \<^verbatim>\<open>startG\<close>, \<^verbatim>\<open>startB\<close>.\<close>

definition startOf :: "ImageData \<Rightarrow> nat \<times> nat \<Rightarrow> startColor" where
  "startOf img seed =
     (readByte (data img) (pixelAt img seed), readByte (data img) (pixelAt img seed + 1),
      readByte (data img) (pixelAt img seed + 2))"



subsection \<open>Largest connected component\<close>

text \<open>The foreground pixels of a mask over a \<open>w\<close> by \<open>h\<close> grid, by raster index.\<close>

definition fgPixels :: "f32 list \<Rightarrow> nat \<Rightarrow> nat \<Rightarrow> nat set" where
  "fgPixels maskData w h = {i. i < w * h \<and> isForeground maskData i}"

text \<open>Two raster indices whose pixels are next to each other in a row or in a column.\<close>

definition adjacent4 :: "nat \<Rightarrow> nat \<Rightarrow> nat \<Rightarrow> bool" where
  "adjacent4 w i j =
     ((i div w = j div w \<and> (i mod w + 1 = j mod w \<or> j mod w + 1 = i mod w))
      \<or> (i mod w = j mod w \<and> (i div w + 1 = j div w \<or> j div w + 1 = i div w)))"

text \<open>
  The 4-connected component of a foreground pixel: the pixels reachable from it through
  adjacent foreground pixels.
\<close>

definition fgEdges :: "f32 list \<Rightarrow> nat \<Rightarrow> nat \<Rightarrow> (nat \<times> nat) set" where
  "fgEdges maskData w h =
     {(i, j). i \<in> fgPixels maskData w h \<and> j \<in> fgPixels maskData w h \<and> adjacent4 w i j}"

definition component :: "f32 list \<Rightarrow> nat \<Rightarrow> nat \<Rightarrow> nat \<Rightarrow> nat set" where
  "component maskData w h i = (fgEdges maskData w h)\<^sup>* `` {i}"

text \<open>The indices marked in \<^verbatim>\<open>visited\<close>.\<close>

definition visitedSet :: "byte list \<Rightarrow> nat set" where
  "visitedSet visited = {i. i < length visited \<and> visited ! i \<noteq> 0}"


text \<open>A neighbour position inside the grid, and its raster index \<^verbatim>\<open>ny * width + nx\<close>.\<close>

definition inGrid :: "nat \<Rightarrow> nat \<Rightarrow> int \<times> int \<Rightarrow> bool" where
  "inGrid w h n = (fst n \<ge> 0 \<and> fst n < int w \<and> snd n \<ge> 0 \<and> snd n < int h)"

definition gridIdx :: "nat \<Rightarrow> int \<times> int \<Rightarrow> nat" where
  "gridIdx w n = nat (snd n * int w + fst n)"

text \<open>
  What holds of \<^verbatim>\<open>visited\<close>, \<^verbatim>\<open>labels\<close> and \<^verbatim>\<open>queue\<close> during the search started at
  \<open>s\<close> with label \<open>lab\<close>, where \<open>V0\<close> and \<open>L0\<close> are the marks and labels before it: the
  queue has no repetition and stays inside the component of \<open>s\<close>; exactly its entries
  have been marked and labelled.
\<close>

definition bfsInv ::
  "f32 list \<Rightarrow> nat \<Rightarrow> nat \<Rightarrow> int \<Rightarrow> nat \<Rightarrow> nat set \<Rightarrow> int list \<Rightarrow> bfsState \<Rightarrow> bool" where
  "bfsInv maskData w h lab s V0 L0 st =
     (case st of (visited, labels, queue) \<Rightarrow>
        length visited = w * h \<and> length labels = w * h
        \<and> distinct queue \<and> s \<in> set queue
        \<and> set queue \<subseteq> component maskData w h s
        \<and> visitedSet visited = V0 \<union> set queue
        \<and> (\<forall>i < w * h. labels ! i = (if i \<in> set queue then toInt32 lab else L0 ! i)))"

text \<open>The entries of the queue before \<open>head\<close> have all their foreground neighbours in the queue.\<close>

definition bfsClosed :: "f32 list \<Rightarrow> nat \<Rightarrow> nat \<Rightarrow> nat \<Rightarrow> nat list \<Rightarrow> bool" where
  "bfsClosed maskData w h head queue =
     (\<forall>k < head. \<forall>j. (queue ! k, j) \<in> fgEdges maskData w h \<longrightarrow> j \<in> set queue)"

text \<open>
  What holds of the scan before raster index \<open>n\<close>, where \<open>seeds\<close> lists the pixels at
  which a search was started, in order: each seed is the least index of its component, the
  marked pixels are the union of the seeds' components and include every foreground pixel
  before \<open>n\<close>, a pixel of the component of seed \<open>k\<close> has label \<open>k + 1\<close>, an unmarked pixel
  has label 0, and \<^verbatim>\<open>componentSizes\<close> holds the size of each component under its label.
\<close>

definition scanInv :: "f32 list \<Rightarrow> nat \<Rightarrow> nat \<Rightarrow> nat \<Rightarrow> nat list \<Rightarrow> scanState \<Rightarrow> bool" where
  "scanInv maskData w h n seeds st =
     (case st of (visited, labels, currentLabel, componentSizes) \<Rightarrow>
        length visited = w * h \<and> length labels = w * h
        \<and> sorted_wrt (<) seeds
        \<and> (\<forall>s\<in>set seeds. s \<in> fgPixels maskData w h \<and> s < n \<and> (\<forall>j\<in>component maskData w h s. s \<le> j))
        \<and> visitedSet visited = (\<Union>s\<in>set seeds. component maskData w h s)
        \<and> (\<forall>i\<in>fgPixels maskData w h. i < n \<longrightarrow> i \<in> visitedSet visited)
        \<and> (\<forall>i < w * h. (\<forall>k < length seeds. i \<in> component maskData w h (seeds ! k) \<longrightarrow> labels ! i = int k + 1)
                        \<and> (i \<notin> (\<Union>s\<in>set seeds. component maskData w h s) \<longrightarrow> labels ! i = 0))
        \<and> currentLabel = int (length seeds) + 1
        \<and> componentSizes = map (\<lambda>k. (int k + 1, card (component maskData w h (seeds ! k)))) [0..<length seeds])"

section \<open>Concrete inputs\<close>

text \<open>
  A one pixel wide, five pixel high image: a black pixel above four pixels of colour
  (1, 1, 1). The gradient score of line 1 is 6, every other score is 0.
\<close>

definition borderImage :: ImageData where
  "borderImage =
     \<lparr>width = 1, height = 5,
      data = [0, 0, 0, 255,  1, 1, 1, 255,  1, 1, 1, 255,  1, 1, 1, 255,  1, 1, 1, 255]\<rparr>"

text \<open>
  A smoothed profile of length 100 with raised lines at 10, 12, 40 and 70, of which those at
  10, 12 and 70 share the highest score.
\<close>

definition tiedProfile :: "real list" where
  "tiedProfile =
     map (\<lambda>i. if i = 10 \<or> i = 12 \<or> i = 70 then 7 else if i = 40 then 5 else 0) [0..<100]"

text \<open>A 3 by 3 image of the single colour (7, 8, 9), opaque.\<close>

definition uniformImage :: ImageData where
  "uniformImage =
     \<lparr>width = 3, height = 3,
      data = [7, 8, 9, 255,  7, 8, 9, 255,  7, 8, 9, 255,
              7, 8, 9, 255,  7, 8, 9, 255,  7, 8, 9, 255,
              7, 8, 9, 255,  7, 8, 9, 255,  7, 8, 9, 255]\<rparr>"


text \<open>
  A black image 5 wide and 7 high with one white pixel at the right end of row 3: rows 0 to 2
  and rows 4 to 6 are two runs of low variance.
\<close>

definition bandedImage :: ImageData where
  "bandedImage =
     \<lparr>width = 5, height = 7,
      data = [0, 0, 0, 255,  0, 0, 0, 255,  0, 0, 0, 255,  0, 0, 0, 255,  0, 0, 0, 255,
              0, 0, 0, 255,  0, 0, 0, 255,  0, 0, 0, 255,  0, 0, 0, 255,  0, 0, 0, 255,
              0, 0, 0, 255,  0, 0, 0, 255,  0, 0, 0, 255,  0, 0, 0, 255,  0, 0, 0, 255,
              0, 0, 0, 255,  0, 0, 0, 255,  0, 0, 0, 255,  0, 0, 0, 255,  255, 255, 255, 255,
              0, 0, 0, 255,  0, 0, 0, 255,  0, 0, 0, 255,  0, 0, 0, 255,  0, 0, 0, 255,
              0, 0, 0, 255,  0, 0, 0, 255,  0, 0, 0, 255,  0, 0, 0, 255,  0, 0, 0, 255,
              0, 0, 0, 255,  0, 0, 0, 255,  0, 0, 0, 255,  0, 0, 0, 255,  0, 0, 0, 255]\<rparr>"

text \<open>A strip of four pixels of one colour, and the same strip with other alpha bytes.\<close>

definition stripImage :: ImageData where
  "stripImage =
     \<lparr>width = 4, height = 1,
      data = [20, 30, 40, 255,  20, 30, 40, 255,  20, 30, 40, 255,  20, 30, 40, 255]\<rparr>"

definition stripImageFaded :: ImageData where
  "stripImageFaded =
     \<lparr>width = 4, height = 1,
      data = [20, 30, 40, 0,  20, 30, 40, 17,  20, 30, 40, 255,  20, 30, 40, 1]\<rparr>"

text \<open>Three pixels in a row; the middle one differs from its neighbours by 10 in blue.\<close>

definition barrierImage :: ImageData where
  "barrierImage =
     \<lparr>width = 3, height = 1,
      data = [10, 10, 10, 255,  10, 10, 20, 255,  10, 10, 10, 255]\<rparr>"


definition noisyMask :: "f32 list" where
  "noisyMask = [Val 1, Val (- 3), NaN, Val 0, Val 5, Val 6]"

section \<open>Sampling and pixel indices\<close>

lemma set_sampled: "set (sampled step n) \<subseteq> {..<n}"
  by (auto simp add: sampled_def)

lemma raster_bound:
  assumes "a < h" and "b < (w::nat)"
  shows "a * w + b < w * h"
proof -
  have "a * w + b < a * w + w" using assms(2) by simp
  also have "\<dots> = Suc a * w" by simp
  also have "\<dots> \<le> h * w" using assms(1) by (intro mult_le_mono1) simp
  finally show ?thesis by (simp add: mult.commute)
qed

lemma pixelIdx_pixel:
  assumes "i < axisLimit img direction" and "j < crossLimit img direction"
  shows "\<exists>k < width img * height img. pixelIdx img direction i j = 4 * k"
proof (cases direction)
  case HORIZONTAL
  with assms have "i < height img" "j < width img" by (simp_all add: axisLimit_def crossLimit_def)
  then have "i * width img + j < width img * height img" by (rule raster_bound)
  then show ?thesis using HORIZONTAL by (auto simp add: pixelIdx_def)
next
  case VERTICAL
  with assms have "i < width img" "j < height img" by (simp_all add: axisLimit_def crossLimit_def)
  then have "j * width img + i < width img * height img" by (intro raster_bound)
  then show ?thesis using VERTICAL by (auto simp add: pixelIdx_def)
qed

lemma sampled_nonempty: "0 < n \<Longrightarrow> sampled step n \<noteq> []"
proof -
  assume "0 < n"
  then have "0 \<in> set (sampled step n)" by (simp add: sampled_def)
  then show ?thesis by auto
qed

lemma fold_cong_set:
  assumes "\<And>x s. x \<in> set xs \<Longrightarrow> f x s = g x s"
  shows "fold f xs s = fold g xs s"
  using assms by (induction xs arbitrary: s) simp_all

section \<open>The smoothing step\<close>

lemma fold_add_sum_list:
  "fold (\<lambda>k acc. acc + f k) xs (a::real) = a + sum_list (map f xs)"
  by (induction xs arbitrary: a) (simp_all add: algebra_simps)

lemma windowSum_sum:
  "windowSum sc w i = (\<Sum>k = - int w..int w. sc ! nat (int i + k))"
  unfolding windowSum_def fold_add_sum_list
  by (simp add: sum_list_distinct_conv_sum_set)

lemma smoothScores_length: "length (smoothScores w sc limit) = limit"
  by (simp add: smoothScores_def)

lemma smoothScores_nth:
  "i < limit \<Longrightarrow> smoothScores w sc limit ! i =
     (if w \<le> i \<and> i + w < limit then (\<Sum>k = - int w..int w. sc ! nat (int i + k)) / (2 * real w + 1) else 0)"
  by (auto simp add: smoothScores_def windowSum_sum)

lemma smoothScoresLegacy_nth:
  "i < limit \<Longrightarrow> smoothScoresLegacy w sc limit ! i =
     (if w \<le> i \<and> i + w < limit then (\<Sum>k = - int w..int w. sc ! nat (int i + k)) / (2 * real w + 1) else sc ! i)"
  by (auto simp add: smoothScoresLegacy_def windowSum_sum)

text \<open>
  Claim C8 (smoothing is a centred moving average inside and the identity on the borders).
  In the interior both detectors compute the mean of the \<open>2 w + 1\<close> surrounding scores
  (\<open>smoothScores_nth\<close>, \<open>smoothScoresLegacy_nth\<close>). Outside \<open>[w, limit - w)\<close> the
  gradient-only detector keeps the input score, but the current detector leaves the zero of
  the fresh \<^verbatim>\<open>Float32Array\<close>: on \<open>borderImage\<close> line 1 has score 6 and smoothed score 0.
  The gradient-only detector, whose window is 3, returns the five scores unchanged.
\<close>

theorem smoothScores_border_is_zero:
  "wellFormed borderImage
   \<and> scores borderImage HORIZONTAL = [0, 6, 0, 0, 0]
   \<and> smoothScores smoothWindow (scores borderImage HORIZONTAL) (axisLimit borderImage HORIZONTAL)
       = [0, 0, 6 / 5, 0, 0]
   \<and> smoothScores smoothWindow (scores borderImage HORIZONTAL) (axisLimit borderImage HORIZONTAL) ! 1
       \<noteq> scores borderImage HORIZONTAL ! 1
   \<and> smoothScoresLegacy smoothWindowLegacy (scores borderImage HORIZONTAL)
         (axisLimit borderImage HORIZONTAL)
       = [0, 6, 0, 0, 0]"
proof -
  have sc: "scores borderImage HORIZONTAL = [0, 6, 0, 0, 0]"
    by (simp add: scores_def borderImage_def axisLimit_def crossLimit_def lineScore_def upt_rec
        sampled_def diffStep_def pixelIdx_def channel_def)
  show ?thesis
    unfolding sc
    by (simp add: wellFormed_def borderImage_def axisLimit_def smoothScores_def
        smoothScoresLegacy_def smoothWindow_def smoothWindowLegacy_def windowSum_def upt_rec
        upto.simps)
qed

section \<open>The greedy spacing filter\<close>


lemma minDistance_pos: "0 < minDistance limit"
  by (simp add: minDistance_def)

lemma farApart_sym: "farApart limit a b = farApart limit b a"
  by (simp add: farApart_def abs_minus_commute)

lemma farApart_irrefl: "\<not> farApart limit a a"
  using minDistance_pos[of limit] by (simp add: farApart_def)

lemma selectLoop_keeps_selected: "set selected \<subseteq> set (selectLoop limit candidates selected)"
  by (induction limit candidates selected rule: selectLoop.induct) auto

lemma selectLoop_spaced:
  assumes "sorted_wrt (farApart limit) selected"
    and "\<forall>a\<in>set selected. \<forall>c\<in>set candidates. farApart limit a (fst c)"
  shows "sorted_wrt (farApart limit) (selectLoop limit candidates selected)"
  using assms
proof (induction limit candidates selected rule: selectLoop.induct)
  case (1 limit selected)
  then show ?case by simp
next
  case (2 limit best rest selected)
  let ?cs = "filter (\<lambda>c. \<bar>real (fst c) - real (fst best)\<bar> \<ge> minDistance limit) (best # rest)"
  have a: "sorted_wrt (farApart limit) (selected @ [fst best])"
    using 2(2,3) by (simp add: sorted_wrt_append)
  have b: "\<forall>a\<in>set (selected @ [fst best]). \<forall>c\<in>set ?cs. farApart limit a (fst c)"
  proof (intro ballI)
    fix a c assume a: "a \<in> set (selected @ [fst best])" and c: "c \<in> set ?cs"
    from c have "c \<in> set (best # rest) \<and> minDistance limit \<le> \<bar>real (fst c) - real (fst best)\<bar>"
      by (simp only: set_filter mem_Collect_eq)
    then have c1: "c \<in> set (best # rest)" and c2: "farApart limit (fst c) (fst best)"
      by (simp_all add: farApart_def)
    show "farApart limit a (fst c)"
    proof (cases "a \<in> set selected")
      case True
      then show ?thesis using 2(3) c1 by blast
    next
      case False
      with a have "a = fst best" by simp
      then show ?thesis using c2 farApart_sym by simp
    qed
  qed
  show ?case
    using "2.IH"[OF a b] by simp
qed

lemma sorted_wrt_farApart_pairs:
  assumes "sorted_wrt (farApart limit) xs"
  shows "distinct xs \<and> (\<forall>a\<in>set xs. \<forall>b\<in>set xs. a \<noteq> b \<longrightarrow> farApart limit a b)"
  using assms
proof (induction xs)
  case Nil
  then show ?case by simp
next
  case (Cons x xs)
  then have far: "\<forall>y\<in>set xs. farApart limit x y" and rest: "sorted_wrt (farApart limit) xs"
    by simp_all
  from far have "x \<notin> set xs" using farApart_irrefl by blast
  moreover have "\<forall>a\<in>set (x # xs). \<forall>b\<in>set (x # xs). a \<noteq> b \<longrightarrow> farApart limit a b"
    using far Cons.IH[OF rest] farApart_sym by auto
  ultimately show ?case using Cons.IH[OF rest] by simp
qed

lemma sorted_adjacent_spacing:
  assumes "distinct xs" and "\<forall>a\<in>set xs. \<forall>b\<in>set xs. a \<noteq> b \<longrightarrow> farApart limit a b"
    and "Suc k < length (sort xs)"
  shows "minDistance limit \<le> real (sort xs ! Suc k) - real (sort xs ! k)"
proof -
  let ?r = "sort xs"
  have d: "distinct ?r" using assms(1) by simp
  have k: "k < length ?r" using assms(3) by simp
  have ne: "?r ! k \<noteq> ?r ! Suc k"
    using d assms(3) k by (simp add: nth_eq_iff_index_eq)
  have le: "?r ! k \<le> ?r ! Suc k"
    using sorted_nth_mono[of ?r k "Suc k"] assms(3) by simp
  have "?r ! k \<in> set xs" "?r ! Suc k \<in> set xs"
    using nth_mem[OF k] nth_mem[OF assms(3)] by simp_all
  then have "farApart limit (?r ! k) (?r ! Suc k)"
    using assms(2) ne by blast
  then show ?thesis using le by (simp add: farApart_def)
qed

lemma sort_key_head_least:
  assumes "sort_key f ys = x # xs"
  shows "x \<in> set ys \<and> (\<forall>y\<in>set ys. f x \<le> f y)"
proof -
  have "sorted (map f (x # xs))"
    using sorted_sort_key[of f ys] assms by simp
  then have "\<forall>y\<in>set (x # xs). f x \<le> f y" by auto
  moreover have "set (x # xs) = set ys"
    using set_sort[of f ys] assms by simp
  ultimately show ?thesis by auto
qed

lemma filterEdges_spacing:
  assumes "Suc k < length (filterEdges limit sm edges)"
  shows "minDistance limit \<le> real (filterEdges limit sm edges ! Suc k) - real (filterEdges limit sm edges ! k)"
proof (cases "length edges > 0")
  case True
  let ?cands = "sort_key (\<lambda>c. - snd c) (map (\<lambda>idx. (idx, sm ! idx)) edges)"
  have "sorted_wrt (farApart limit) (selectLoop limit ?cands [])"
    by (rule selectLoop_spaced) simp_all
  then have "distinct (selectLoop limit ?cands [])"
    and "\<forall>a\<in>set (selectLoop limit ?cands []). \<forall>b\<in>set (selectLoop limit ?cands []). a \<noteq> b \<longrightarrow> farApart limit a b"
    using sorted_wrt_farApart_pairs by blast+
  then show ?thesis
    using assms True sorted_adjacent_spacing[of "selectLoop limit ?cands []" limit k]
    by (simp add: filterEdges_def)
next
  case False
  with assms show ?thesis by (simp add: filterEdges_def)
qed

lemma filterEdges_strongest:
  assumes "e \<in> set edges" and "\<forall>e'\<in>set edges. e' \<noteq> e \<longrightarrow> sm ! e' < sm ! e"
  shows "e \<in> set (filterEdges limit sm edges)"
proof -
  let ?cands = "sort_key (\<lambda>c. - snd c) (map (\<lambda>idx. (idx, sm ! idx)) edges)"
  have "length ?cands = length edges" by simp
  then have "?cands \<noteq> []" using assms(1) by (metis length_0_conv empty_iff list.set(1))
  then obtain best rest where br: "?cands = best # rest" by (cases ?cands) auto
  from sort_key_head_least[OF br]
  have mem: "best \<in> set (map (\<lambda>idx. (idx, sm ! idx)) edges)"
    and least: "\<forall>y\<in>set (map (\<lambda>idx. (idx, sm ! idx)) edges). - snd best \<le> - snd y"
    by blast+
  from mem obtain e' where e': "e' \<in> set edges" "best = (e', sm ! e')" by auto
  have "(e, sm ! e) \<in> set (map (\<lambda>idx. (idx, sm ! idx)) edges)" using assms(1) by auto
  with least have "sm ! e \<le> sm ! e'" using e'(2) by fastforce
  with assms(2) e'(1) have "e' = e" by fastforce
  then have "fst best = e" using e'(2) by simp
  moreover have "fst best \<in> set (selectLoop limit ?cands [])"
    using selectLoop_keeps_selected[of "[] @ [fst best]" limit] br by (simp del: sort_key_simps) 
  ultimately show ?thesis
    using assms(1) by (auto simp add: filterEdges_def simp del: sort_key_simps)
qed

lemma filter_first:
  assumes "i < length xs" and "P (xs ! i)" and "\<forall>j<i. \<not> P (xs ! j)"
  shows "filter P xs = xs ! i # filter P (drop (Suc i) xs)"
proof -
  have "\<forall>x\<in>set (take i xs). \<not> P x"
  proof
    fix x assume "x \<in> set (take i xs)"
    then obtain j where "j < length (take i xs)" "take i xs ! j = x"
      by (auto simp add: in_set_conv_nth)
    then show "\<not> P x" using assms(1,3) by auto
  qed
  then have e: "filter P (take i xs) = []" by (simp add: filter_empty_conv)
  have "filter P xs = filter P (take i xs @ xs ! i # drop (Suc i) xs)"
    using assms(1) by (simp only: id_take_nth_drop[symmetric])
  then show ?thesis using e assms(2) by simp
qed

lemma sort_key_head_first:
  assumes "i < length ys"
    and "\<forall>j<length ys. f (ys ! i) \<le> f (ys ! j)"
    and "\<forall>j<i. f (ys ! j) \<noteq> f (ys ! i)"
  shows "\<exists>xs. sort_key f ys = ys ! i # xs"
proof -
  have "length (sort_key f ys) = length ys" by simp
  then have "sort_key f ys \<noteq> []" using assms(1) by (metis length_0_conv not_less0)
  then obtain x xs where xs: "sort_key f ys = x # xs" by (cases "sort_key f ys") auto
  from sort_key_head_least[OF xs] have xm: "x \<in> set ys" and least: "\<forall>y\<in>set ys. f x \<le> f y"
    by blast+
  have "f x \<le> f (ys ! i)" using least assms(1) by simp
  moreover have "f (ys ! i) \<le> f x" using xm assms(2) by (auto simp add: in_set_conv_nth)
  ultimately have k: "f x = f (ys ! i)" by simp
  have "filter (\<lambda>y. f y = f (ys ! i)) (sort_key f ys) = filter (\<lambda>y. f y = f (ys ! i)) ys"
    by (rule sort_key_stable)
  moreover have "filter (\<lambda>y. f y = f (ys ! i)) ys
                   = ys ! i # filter (\<lambda>y. f y = f (ys ! i)) (drop (Suc i) ys)"
    using assms(1,3) by (intro filter_first) simp_all
  ultimately have "x = ys ! i" using xs k by simp
  then show ?thesis using xs by simp
qed

lemma first_maximum:
  fixes g :: "'a \<Rightarrow> real"
  assumes "xs \<noteq> []"
  shows "\<exists>i<length xs. (\<forall>j<length xs. g (xs ! j) \<le> g (xs ! i)) \<and> (\<forall>j<i. g (xs ! j) < g (xs ! i))"
  using assms
proof (induction xs)
  case Nil
  then show ?case by simp
next
  case (Cons x xs)
  show ?case
  proof (cases "xs = []")
    case True
    then show ?thesis by simp
  next
    case False
    then obtain i where i: "i < length xs" "\<forall>j<length xs. g (xs ! j) \<le> g (xs ! i)"
      "\<forall>j<i. g (xs ! j) < g (xs ! i)"
      using Cons.IH by blast
    show ?thesis
    proof (cases "g (xs ! i) \<le> g x")
      case True
      have "\<forall>j<length (x # xs). g ((x # xs) ! j) \<le> g ((x # xs) ! 0)"
      proof (intro allI impI)
        fix j assume "j < length (x # xs)"
        show "g ((x # xs) ! j) \<le> g ((x # xs) ! 0)"
        proof (cases j)
          case 0
          then show ?thesis by simp
        next
          case (Suc j')
          then have "g (xs ! j') \<le> g (xs ! i)" using i(2) \<open>j < length (x # xs)\<close> by simp
          then show ?thesis using True Suc by simp
        qed
      qed
      then show ?thesis by (intro exI[of _ 0]) simp
    next
      case False
      have a: "\<forall>j<length (x # xs). g ((x # xs) ! j) \<le> g ((x # xs) ! Suc i)"
      proof (intro allI impI)
        fix j assume "j < length (x # xs)"
        then show "g ((x # xs) ! j) \<le> g ((x # xs) ! Suc i)"
          using i(2) False by (cases j) auto
      qed
      have b: "\<forall>j<Suc i. g ((x # xs) ! j) < g ((x # xs) ! Suc i)"
      proof (intro allI impI)
        fix j assume "j < Suc i"
        then show "g ((x # xs) ! j) < g ((x # xs) ! Suc i)"
          using i(3) False by (cases j) auto
      qed
      show ?thesis using a b i(1) by (intro exI[of _ "Suc i"]) simp
    qed
  qed
qed

lemma selectLoop_subset:
  "set (selectLoop limit candidates selected) \<subseteq> set selected \<union> fst ` set candidates"
proof (induction limit candidates selected rule: selectLoop.induct)
  case (1 limit selected)
  show ?case by simp
next
  case (2 limit best rest selected)
  let ?cs = "filter (\<lambda>c. \<bar>real (fst c) - real (fst best)\<bar> \<ge> minDistance limit) (best # rest)"
  have a: "set ?cs \<subseteq> set (best # rest)" by (rule filter_is_subset)
  have g: "\<And>A B. A \<subseteq> B \<Longrightarrow> best \<in> B \<Longrightarrow>
             set (selected @ [fst best]) \<union> fst ` A \<subseteq> set selected \<union> fst ` B"
    by auto
  have "set (selectLoop limit (best # rest) selected)
          = set (selectLoop limit ?cs (selected @ [fst best]))"
    by simp
  also have "\<dots> \<subseteq> set (selected @ [fst best]) \<union> fst ` set ?cs" by (rule "2.IH")
  also have "\<dots> \<subseteq> set selected \<union> fst ` set (best # rest)"
    by (rule g[OF a]) simp
  finally show ?case .
qed

lemma filterEdges_subset: "set (filterEdges limit sm edges) \<subseteq> set edges"
proof -
  have "fst ` set (map (\<lambda>idx. (idx, sm ! idx)) edges) \<subseteq> set edges" by auto
  then show ?thesis
    using selectLoop_subset[of limit "sort_key (\<lambda>c. - snd c) (map (\<lambda>idx. (idx, sm ! idx)) edges)" "[]"]
    by (auto simp add: filterEdges_def simp del: sort_key_simps)
qed

lemma filterEdges_first_strongest:
  assumes "i < length edges"
    and "\<forall>j<length edges. sm ! (edges ! j) \<le> sm ! (edges ! i)"
    and "\<forall>j<i. sm ! (edges ! j) < sm ! (edges ! i)"
  shows "edges ! i \<in> set (filterEdges limit sm edges)"
proof -
  let ?ys = "map (\<lambda>idx. (idx, sm ! idx)) edges"
  let ?cands = "sort_key (\<lambda>c. - snd c) ?ys"
  have "\<exists>xs. ?cands = ?ys ! i # xs"
  proof (rule sort_key_head_first)
    show "i < length ?ys" using assms(1) by simp
    show "\<forall>j<length ?ys. - snd (?ys ! i) \<le> - snd (?ys ! j)" using assms(1,2) by simp
    show "\<forall>j<i. - snd (?ys ! j) \<noteq> - snd (?ys ! i)" using assms(1,3) by auto
  qed
  then obtain rest where br: "?cands = (edges ! i, sm ! (edges ! i)) # rest"
    using assms(1) by auto
  have "edges ! i \<in> set (selectLoop limit ?cands [])"
    using selectLoop_keeps_selected[of "[] @ [edges ! i]" limit] br by (simp del: sort_key_simps)
  then show ?thesis
    using assms(1) by (auto simp add: filterEdges_def simp del: sort_key_simps)
qed

lemma filterEdges_some_strongest:
  assumes "edges \<noteq> []"
  shows "\<exists>e\<in>set (filterEdges limit sm edges). e \<in> set edges \<and> (\<forall>e'\<in>set edges. sm ! e' \<le> sm ! e)"
proof -
  obtain i where i: "i < length edges" "\<forall>j<length edges. sm ! (edges ! j) \<le> sm ! (edges ! i)"
    "\<forall>j<i. sm ! (edges ! j) < sm ! (edges ! i)"
    using first_maximum[OF assms, of "\<lambda>e. sm ! e"] by blast
  have "edges ! i \<in> set (filterEdges limit sm edges)"
    using i by (rule filterEdges_first_strongest)
  moreover have "\<forall>e'\<in>set edges. sm ! e' \<le> sm ! (edges ! i)"
    using i(2) by (auto simp add: in_set_conv_nth)
  ultimately show ?thesis using i(1) by (intro bexI[of _ "edges ! i"]) simp_all
qed

text \<open>
  Claim C5: in the list \<open>filterEdges\<close> returns, sorted by position, neighbouring indices
  are at least \<open>minDistance\<close> apart, and a candidate with the highest smoothed score is always
  among them: the list holds only candidates, and whenever there is a candidate it holds one
  whose score no candidate exceeds, namely the first candidate of the highest score. In
  particular a candidate that scores higher than every other one is kept.
\<close>

theorem filterEdges_spacing_and_strongest:
  "(\<forall>k. Suc k < length (filterEdges limit sm edges) \<longrightarrow>
        minDistance limit \<le> real (filterEdges limit sm edges ! Suc k) - real (filterEdges limit sm edges ! k))
   \<and> sorted (filterEdges limit sm edges)
   \<and> set (filterEdges limit sm edges) \<subseteq> set edges
   \<and> (edges \<noteq> [] \<longrightarrow>
        (\<exists>e\<in>set (filterEdges limit sm edges). e \<in> set edges \<and> (\<forall>e'\<in>set edges. sm ! e' \<le> sm ! e)))
   \<and> (\<forall>i<length edges.
        (\<forall>j<length edges. sm ! (edges ! j) \<le> sm ! (edges ! i)) \<and> (\<forall>j<i. sm ! (edges ! j) < sm ! (edges ! i))
        \<longrightarrow> edges ! i \<in> set (filterEdges limit sm edges))
   \<and> (\<forall>e\<in>set edges. (\<forall>e'\<in>set edges. e' \<noteq> e \<longrightarrow> sm ! e' < sm ! e) \<longrightarrow>
        e \<in> set (filterEdges limit sm edges))"
proof (intro conjI)
  show "\<forall>k. Suc k < length (filterEdges limit sm edges) \<longrightarrow>
        minDistance limit \<le> real (filterEdges limit sm edges ! Suc k) - real (filterEdges limit sm edges ! k)"
    using filterEdges_spacing by blast
  show "sorted (filterEdges limit sm edges)" by (simp add: filterEdges_def)
  show "set (filterEdges limit sm edges) \<subseteq> set edges" by (rule filterEdges_subset)
  show "edges \<noteq> [] \<longrightarrow>
        (\<exists>e\<in>set (filterEdges limit sm edges). e \<in> set edges \<and> (\<forall>e'\<in>set edges. sm ! e' \<le> sm ! e))"
    using filterEdges_some_strongest by blast
  show "\<forall>i<length edges.
        (\<forall>j<length edges. sm ! (edges ! j) \<le> sm ! (edges ! i)) \<and> (\<forall>j<i. sm ! (edges ! j) < sm ! (edges ! i))
        \<longrightarrow> edges ! i \<in> set (filterEdges limit sm edges)"
    using filterEdges_first_strongest by blast
  show "\<forall>e\<in>set edges. (\<forall>e'\<in>set edges. e' \<noteq> e \<longrightarrow> sm ! e' < sm ! e) \<longrightarrow>
        e \<in> set (filterEdges limit sm edges)"
    using filterEdges_strongest by blast
qed

lemma tiedProfile_filtered: "filterEdges 100 tiedProfile [10, 12, 40, 70] = [10, 70]"
  by code_simp

lemma less_4E: "j < (4::nat) \<Longrightarrow> j = 0 \<or> j = 1 \<or> j = 2 \<or> j = 3"
  by arith


theorem filterEdges_spacing_and_strongest_witness:
  "filterEdges 100 tiedProfile [10, 12, 40, 70] = [10, 70]
   \<and> tiedProfile ! 10 = 7 \<and> tiedProfile ! 12 = 7 \<and> tiedProfile ! 40 = 5 \<and> tiedProfile ! 70 = 7
   \<and> minDistance 100 \<le> real (filterEdges 100 tiedProfile [10, 12, 40, 70] ! Suc 0)
        - real (filterEdges 100 tiedProfile [10, 12, 40, 70] ! 0)
   \<and> [10, 12, 40, 70] ! 0 \<in> set (filterEdges 100 tiedProfile [10, 12, 40, 70])
   \<and> (\<exists>e\<in>set (filterEdges 100 tiedProfile [10, 12, 40, 70]). tiedProfile ! e = 7)"
proof -
  have v: "tiedProfile ! 10 = 7" "tiedProfile ! 12 = 7" "tiedProfile ! 40 = 5" "tiedProfile ! 70 = 7"
    by (simp_all add: tiedProfile_def)
  have top: "\<forall>j<length [10, 12, 40, 70 :: nat]. tiedProfile ! ([10, 12, 40, 70] ! j) \<le> tiedProfile ! ([10, 12, 40, 70] ! 0)"
  proof (intro allI impI)
    fix j :: nat assume "j < length [10, 12, 40, 70 :: nat]"
    then have "j = 0 \<or> j = 1 \<or> j = 2 \<or> j = 3" by (intro less_4E) simp
    then show "tiedProfile ! ([10, 12, 40, 70] ! j) \<le> tiedProfile ! ([10, 12, 40, 70] ! 0)"
      using v by (elim disjE) simp_all
  qed
  have len: "Suc 0 < length (filterEdges 100 tiedProfile [10, 12, 40, 70])"
    using tiedProfile_filtered by simp
  note t = filterEdges_spacing_and_strongest[of 100 tiedProfile "[10, 12, 40, 70]"]
  note t1 = t[THEN conjunct1, rule_format]
  note t5 = t[THEN conjunct2, THEN conjunct2, THEN conjunct2, THEN conjunct2, THEN conjunct1, rule_format]
  have sp: "minDistance 100 \<le> real (filterEdges 100 tiedProfile [10, 12, 40, 70] ! Suc 0)
        - real (filterEdges 100 tiedProfile [10, 12, 40, 70] ! 0)"
    using len by (rule t1)
  have fst: "[10, 12, 40, 70] ! 0 \<in> set (filterEdges 100 tiedProfile [10, 12, 40, 70])"
  proof (rule t5)
    show "0 < length [10, 12, 40, 70 :: nat]" by simp
    show "(\<forall>j<length [10, 12, 40, 70 :: nat]. tiedProfile ! ([10, 12, 40, 70] ! j) \<le> tiedProfile ! ([10, 12, 40, 70] ! 0))
          \<and> (\<forall>j<0. tiedProfile ! ([10, 12, 40, 70] ! j) < tiedProfile ! ([10, 12, 40, 70] ! 0))"
      using top by blast
  qed
  have ex: "\<exists>e\<in>set (filterEdges 100 tiedProfile [10, 12, 40, 70]). tiedProfile ! e = 7"
    using tiedProfile_filtered v by simp
  show ?thesis
    by (intro conjI) (fact tiedProfile_filtered v sp fst ex)+
qed

section \<open>The split list is strictly increasing and inside the margins\<close>

subsection \<open>The gap midpoints are strictly increasing\<close>

lemma closeGap_cases:
  "closeGap gaps gapStart gapEnd = gaps \<or>
   (\<exists>m. closeGap gaps gapStart gapEnd = gaps @ [m] \<and> gapStart \<le> m \<and> int m \<le> gapEnd)"
  by (auto simp add: closeGap_def)

lemma gapStep_inv:
  assumes "gapInv n st"
  shows "gapInv (Suc n) (gapStep vs n st)"
proof -
  obtain gaps inGap gapStart where st: "st = (gaps, inGap, gapStart)" by (cases st)
  show ?thesis
  proof (cases "inGap \<and> \<not> vs ! n < gapThreshold")
    case True
    from assms st True have s: "sorted_wrt (<) gaps" "gapStart < n" "\<forall>g\<in>set gaps. g < gapStart"
      by (simp_all add: gapInv_def)
    from closeGap_cases[of gaps gapStart "int n - 1"] show ?thesis
    proof
      assume "closeGap gaps gapStart (int n - 1) = gaps"
      then show ?thesis using s True st by (auto simp add: gapInv_def gapStep_def)
    next
      assume "\<exists>m. closeGap gaps gapStart (int n - 1) = gaps @ [m] \<and> gapStart \<le> m \<and> int m \<le> int n - 1"
      then obtain m where m: "closeGap gaps gapStart (int n - 1) = gaps @ [m]" "gapStart \<le> m" "int m \<le> int n - 1"
        by blast
      have "sorted_wrt (<) (gaps @ [m])" using s m(2) by (auto simp add: sorted_wrt_append)
      moreover have "\<forall>g\<in>set (gaps @ [m]). g < Suc n" using s m(2,3) by auto
      ultimately show ?thesis using True st m(1) by (simp add: gapInv_def gapStep_def)
    qed
  next
    case False
    then show ?thesis using assms st by (auto simp add: gapInv_def gapStep_def split: if_splits)
  qed
qed

lemma fold_gapStep_inv: "gapInv n (fold (gapStep vs) [0..<n] ([], False, 0))"
proof (induction n)
  case 0
  show ?case by (simp add: gapInv_def)
next
  case (Suc n)
  then show ?case using gapStep_inv by simp
qed

lemma findGaps_increasing: "sorted_wrt (<) (findGaps vs limit)"
proof -
  obtain gaps inGap gapStart where st: "fold (gapStep vs) [0..<limit] ([], False, 0) = (gaps, inGap, gapStart)"
    by (cases "fold (gapStep vs) [0..<limit] ([], False, 0)")
  have inv: "gapInv limit (gaps, inGap, gapStart)"
    using fold_gapStep_inv[of limit vs] st by simp
  show ?thesis
  proof (cases inGap)
    case True
    with inv have s: "sorted_wrt (<) gaps" "\<forall>g\<in>set gaps. g < gapStart" by (simp_all add: gapInv_def)
    from closeGap_cases[of gaps gapStart "int limit - 1"] s True st show ?thesis
      by (fastforce simp add: findGaps_def sorted_wrt_append)
  next
    case False
    with inv st show ?thesis by (simp add: findGaps_def gapInv_def)
  qed
qed

subsection \<open>Merging keeps the positions distinct and inside the margins\<close>

lemma addEdge_inv:
  assumes "distinct fs" and "\<forall>s\<in>set fs. inMargin limit s"
  shows "distinct (addEdge limit edge fs) \<and> (\<forall>s\<in>set (addEdge limit edge fs). inMargin limit s)"
proof (cases "addEdge limit edge fs = fs")
  case True
  with assms show ?thesis by simp
next
  case False
  then have eq: "addEdge limit edge fs = fs @ [edge]"
    and m: "\<not> (real edge \<le> margin limit \<or> real edge \<ge> real limit - margin limit)"
    and nd: "\<not> list_ex (\<lambda>split. \<bar>int split - int edge\<bar> < 20) fs"
    by (auto simp add: addEdge_def split: if_splits)
  from nd have "edge \<notin> set fs" by (auto simp add: list_ex_iff)
  moreover from m have "inMargin limit edge" by (simp add: inMargin_def)
  ultimately show ?thesis using assms eq by simp
qed

lemma fold_addEdge_inv:
  assumes "distinct fs" and "\<forall>s\<in>set fs. inMargin limit s"
  shows "distinct (fold (addEdge limit) edges fs) \<and> (\<forall>s\<in>set (fold (addEdge limit) edges fs). inMargin limit s)"
  using assms
proof (induction edges arbitrary: fs)
  case Nil
  then show ?case by simp
next
  case (Cons e edges)
  have "distinct (addEdge limit e fs)" and "\<forall>s\<in>set (addEdge limit e fs). inMargin limit s"
    using addEdge_inv[OF Cons.prems] by blast+
  then show ?case using Cons.IH by simp
qed

lemma combineSplits_increasing_inMargin:
  assumes "sorted_wrt (<) gaps"
  shows "sorted_wrt (<) (combineSplits limit gaps edges) \<and> (\<forall>s\<in>set (combineSplits limit gaps edges). inMargin limit s)"
proof -
  let ?fs = "filter (\<lambda>gap. real gap > margin limit \<and> real gap < real limit - margin limit) gaps"
  have "distinct gaps" using assms strict_sorted_iff by blast
  then have "distinct ?fs" by simp
  moreover have "\<forall>s\<in>set ?fs. inMargin limit s" by (simp add: inMargin_def)
  ultimately have "distinct (fold (addEdge limit) edges ?fs) \<and> (\<forall>s\<in>set (fold (addEdge limit) edges ?fs). inMargin limit s)"
    by (rule fold_addEdge_inv)
  then show ?thesis
    by (simp add: combineSplits_def strict_sorted_iff)
qed

lemma inMargin_inside: "inMargin limit s \<Longrightarrow> 0 < s \<and> s < limit"
  by (auto simp add: inMargin_def margin_def intro: gr0I)

lemma detectAxis_inMargin:
  "sorted_wrt (<) (detectAxis img direction)
   \<and> (\<forall>s\<in>set (detectAxis img direction). inMargin (axisLimit img direction) s)"
proof -
  let ?limit = "axisLimit img direction"
  let ?edges = "detectPeaks (smoothScores smoothWindow (scores img direction) ?limit) ?limit"
  have d: "detectAxis img direction = combineSplits ?limit (findGaps (variances img direction) ?limit) ?edges"
    by (simp add: detectAxis_def Let_def)
  show ?thesis
    unfolding d by (rule combineSplits_increasing_inMargin) (rule findGaps_increasing)
qed

section \<open>Uniform images\<close>

lemma uniform_channels:
  assumes "uniform img r g b" and "i < axisLimit img direction" and "j < crossLimit img direction"
  shows "channel img (pixelIdx img direction i j) = real (unat r)"
    and "channel img (pixelIdx img direction i j + 1) = real (unat g)"
    and "channel img (pixelIdx img direction i j + 2) = real (unat b)"
  using pixelIdx_pixel[OF assms(2,3)] assms(1) by (auto simp add: uniform_def channel_def)

lemma varianceStep_val:
  assumes "(channel img (pixelIdx img direction i j) + channel img (pixelIdx img direction i j + 1)
              + channel img (pixelIdx img direction i j + 2)) / 3 = v"
  shows "varianceStep img direction i j (s, q, c) = (s + v, q + v * v, c + 1)"
  unfolding varianceStep_def Let_def prod.case assms ..

lemma fold_varianceStep_const:
  assumes "\<forall>j\<in>set js. (channel img (pixelIdx img direction i j) + channel img (pixelIdx img direction i j + 1)
                           + channel img (pixelIdx img direction i j + 2)) / 3 = v"
  shows "fold (varianceStep img direction i) js (s, q, c)
           = (s + real (length js) * v, q + real (length js) * (v * v), c + real (length js))"
  using assms
proof (induction js arbitrary: s q c)
  case Nil
  show ?case by simp
next
  case (Cons j js)
  have step: "varianceStep img direction i j (s, q, c) = (s + v, q + v * v, c + 1)"
    using Cons.prems by (intro varianceStep_val) simp
  have "fold (varianceStep img direction i) js (s + v, q + v * v, c + 1)
          = (s + v + real (length js) * v, q + v * v + real (length js) * (v * v), c + 1 + real (length js))"
    using Cons.prems by (intro Cons.IH) simp
  then show ?case by (simp add: step algebra_simps)
qed

lemma lineVariance_uniform:
  assumes "wellFormed img" and "uniform img r g b" and "i < axisLimit img direction"
  shows "lineVariance img direction i = 0"
proof -
  let ?js = "sampled 4 (crossLimit img direction)"
  let ?v = "(real (unat r) + real (unat g) + real (unat b)) / 3"
  have pos: "0 < crossLimit img direction"
    using assms(1) by (simp add: wellFormed_def crossLimit_def)
  then have n: "0 < length ?js" using sampled_nonempty by blast
  have "\<forall>j\<in>set ?js. (channel img (pixelIdx img direction i j) + channel img (pixelIdx img direction i j + 1)
                           + channel img (pixelIdx img direction i j + 2)) / 3 = ?v"
    using set_sampled[of 4 "crossLimit img direction"] uniform_channels[OF assms(2,3)] by auto
  then have "fold (varianceStep img direction i) ?js (0, 0, 0)
           = (real (length ?js) * ?v, real (length ?js) * (?v * ?v), real (length ?js))"
    using fold_varianceStep_const[of ?js img direction i ?v 0 0 0] by simp
  then show ?thesis using n by (simp add: lineVariance_def)
qed

lemma fold_gapStep_all_low:
  assumes "\<forall>i < n. vs ! i < gapThreshold"
  shows "fold (gapStep vs) [0..<n] ([], False, 0) = ([], 0 < n, 0)"
  using assms
proof (induction n)
  case 0
  show ?case by simp
next
  case (Suc n)
  then show ?case by (simp add: gapStep_def)
qed

lemma findGaps_all_low:
  assumes "\<forall>i < limit. vs ! i < gapThreshold"
  shows "findGaps vs limit = (if limit < 3 then [] else [(limit - 1) div 2])"
proof -
  have "nat ((int limit - 1) div 2) = (limit - 1) div 2" if "3 \<le> limit"
    using that by (simp add: nat_div_distrib nat_diff_distrib)
  then show ?thesis
    using fold_gapStep_all_low[OF assms] by (auto simp add: findGaps_def closeGap_def)
qed

lemma fold_diffStep_uniform:
  assumes "\<forall>j\<in>set js. diffStep img direction i j 0 = 0"
  shows "fold (diffStep img direction i) js 0 = 0"
  using assms
proof (induction js)
  case Nil
  show ?case by simp
next
  case (Cons j js)
  then show ?case by simp
qed

lemma lineScore_uniform:
  assumes "uniform img r g b" and "i < axisLimit img direction"
  shows "lineScore img direction i = 0"
proof -
  have i1: "i - 1 < axisLimit img direction" using assms(2) by simp
  have "\<forall>j\<in>set (sampled 2 (crossLimit img direction)). diffStep img direction i j 0 = 0"
    using set_sampled[of 2 "crossLimit img direction"]
      uniform_channels[OF assms(1,2)] uniform_channels[OF assms(1) i1]
    by (auto simp add: diffStep_def Let_def)
  then show ?thesis using fold_diffStep_uniform by (simp add: lineScore_def)
qed

lemma scores_uniform:
  assumes "uniform img r g b"
  shows "scores img direction = replicate (axisLimit img direction) 0"
  using lineScore_uniform[OF assms]
  by (auto simp add: scores_def list_eq_iff_nth_eq)

lemma fold_zero: "\<forall>k\<in>set ks. f k = (0::real) \<Longrightarrow> fold (\<lambda>k acc. acc + f k) ks 0 = 0"
  by (induction ks) simp_all

lemma smoothScores_zero: "smoothScores w (replicate limit 0) limit = replicate limit 0"
proof -
  have "windowSum (replicate limit 0) w i = 0" if "w \<le> i" "int i < int limit - int w" for i
  proof -
    have "\<forall>k\<in>set [- int w..int w]. replicate limit (0::real) ! nat (int i + k) = 0"
      using that by auto
    then show ?thesis unfolding windowSum_def by (rule fold_zero)
  qed
  then show ?thesis by (auto simp add: smoothScores_def list_eq_iff_nth_eq)
qed

lemma detectPeaks_zero: "detectPeaks (replicate limit 0) limit = []"
  by (simp add: detectPeaks_def)

lemma combineSplits_single:
  assumes "3 \<le> limit"
  shows "combineSplits limit [(limit - 1) div 2] [] = [(limit - 1) div 2]"
proof -
  let ?m = "(limit - 1) div 2"
  have "limit \<le> 2 * ?m + 2" and "2 * ?m + 1 \<le> limit" and "1 \<le> ?m"
    using assms by linarith+
  then have "real limit \<le> real (2 * ?m + 2)" and "real (2 * ?m + 1) \<le> real limit" and "real 1 \<le> real ?m"
    by (simp_all only: of_nat_le_iff)
  then have "real limit \<le> 2 * real ?m + 2" and "2 * real ?m + 1 \<le> real limit" and "1 \<le> real ?m"
    by simp_all
  then have "margin limit < real ?m \<and> real ?m < real limit - margin limit"
    by (simp add: margin_def)
  then show ?thesis by (simp add: combineSplits_def)
qed

lemma detectAxis_uniform_value:
  assumes "wellFormed img" and "uniform img r g b"
  shows "detectAxis img direction =
           (if axisLimit img direction < 3 then [] else [(axisLimit img direction - 1) div 2])"
proof -
  let ?limit = "axisLimit img direction"
  have "\<forall>i < ?limit. variances img direction ! i < gapThreshold"
    using lineVariance_uniform[OF assms] by (simp add: variances_def gapThreshold_def)
  then have gaps: "findGaps (variances img direction) ?limit = (if ?limit < 3 then [] else [(?limit - 1) div 2])"
    by (rule findGaps_all_low)
  have edges: "detectPeaks (smoothScores smoothWindow (scores img direction) ?limit) ?limit = []"
    by (simp add: scores_uniform[OF assms(2)] smoothScores_zero detectPeaks_zero)
  show ?thesis
    using combineSplits_single[of ?limit]
    by (simp add: detectAxis_def Let_def gaps edges) (simp add: combineSplits_def)
qed

section \<open>Only the colour bytes of the grid are read\<close>

lemma agreeRGB_dims:
  assumes "agreeRGB img1 img2"
  shows "axisLimit img1 direction = axisLimit img2 direction"
    and "crossLimit img1 direction = crossLimit img2 direction"
    and "pixelIdx img1 direction i j = pixelIdx img2 direction i j"
  using assms by (simp_all add: agreeRGB_def axisLimit_def crossLimit_def pixelIdx_def)

lemma agreeRGB_channels:
  assumes "agreeRGB img1 img2"
    and "i < axisLimit img1 direction" and "j < crossLimit img1 direction"
  shows "channel img1 (pixelIdx img1 direction i j) = channel img2 (pixelIdx img1 direction i j)"
    and "channel img1 (pixelIdx img1 direction i j + 1) = channel img2 (pixelIdx img1 direction i j + 1)"
    and "channel img1 (pixelIdx img1 direction i j + 2) = channel img2 (pixelIdx img1 direction i j + 2)"
proof -
  obtain k where k: "k < width img1 * height img1" "pixelIdx img1 direction i j = 4 * k"
    using pixelIdx_pixel[OF assms(2,3)] by blast
  have "data img1 ! (4 * k) = data img2 ! (4 * k)
        \<and> data img1 ! (4 * k + 1) = data img2 ! (4 * k + 1)
        \<and> data img1 ! (4 * k + 2) = data img2 ! (4 * k + 2)"
    using assms(1) k(1) unfolding agreeRGB_def by blast
  then show "channel img1 (pixelIdx img1 direction i j) = channel img2 (pixelIdx img1 direction i j)"
    and "channel img1 (pixelIdx img1 direction i j + 1) = channel img2 (pixelIdx img1 direction i j + 1)"
    and "channel img1 (pixelIdx img1 direction i j + 2) = channel img2 (pixelIdx img1 direction i j + 2)"
    by (simp_all add: channel_def k(2))
qed

lemma lineVariance_agreeRGB:
  assumes "agreeRGB img1 img2" and "i < axisLimit img1 direction"
  shows "lineVariance img1 direction i = lineVariance img2 direction i"
proof -
  have "varianceStep img1 direction i j acc = varianceStep img2 direction i j acc"
    if "j \<in> set (sampled 4 (crossLimit img1 direction))" for j acc
  proof -
    have j: "j < crossLimit img1 direction" using that set_sampled by blast
    show ?thesis
      unfolding varianceStep_def Let_def agreeRGB_dims(3)[OF assms(1), symmetric]
      by (simp only: agreeRGB_channels[OF assms(1,2) j])
  qed
  then have "fold (varianceStep img1 direction i) (sampled 4 (crossLimit img1 direction)) (0, 0, 0)
           = fold (varianceStep img2 direction i) (sampled 4 (crossLimit img1 direction)) (0, 0, 0)"
    by (rule fold_cong_set)
  then show ?thesis
    by (simp add: lineVariance_def agreeRGB_dims(2)[OF assms(1), of direction])
qed

lemma lineScore_agreeRGB:
  assumes "agreeRGB img1 img2" and "i < axisLimit img1 direction"
  shows "lineScore img1 direction i = lineScore img2 direction i"
proof -
  have i1: "i - 1 < axisLimit img1 direction" using assms(2) by simp
  have "diffStep img1 direction i j acc = diffStep img2 direction i j acc"
    if "j \<in> set (sampled 2 (crossLimit img1 direction))" for j acc
  proof -
    have j: "j < crossLimit img1 direction" using that set_sampled by blast
    show ?thesis
      unfolding diffStep_def Let_def agreeRGB_dims(3)[OF assms(1), symmetric]
      by (simp only: agreeRGB_channels[OF assms(1,2) j] agreeRGB_channels[OF assms(1) i1 j])
  qed
  then have "fold (diffStep img1 direction i) (sampled 2 (crossLimit img1 direction)) 0
           = fold (diffStep img2 direction i) (sampled 2 (crossLimit img1 direction)) 0"
    by (rule fold_cong_set)
  then show ?thesis
    by (simp add: lineScore_def agreeRGB_dims(2)[OF assms(1), of direction])
qed

lemma detectAxis_agreeRGB:
  assumes "agreeRGB img1 img2"
  shows "detectAxis img1 direction = detectAxis img2 direction"
proof -
  have lim: "axisLimit img2 direction = axisLimit img1 direction"
    using agreeRGB_dims(1)[OF assms] by simp
  have v: "variances img1 direction = variances img2 direction"
    using lineVariance_agreeRGB[OF assms] by (simp add: variances_def lim)
  have s: "scores img1 direction = scores img2 direction"
    using lineScore_agreeRGB[OF assms] by (simp add: scores_def lim)
  show ?thesis by (simp add: detectAxis_def v s lim)
qed

lemma sameRGB_agreeRGB:
  assumes "wellFormed img1" and "sameRGB img1 img2"
  shows "agreeRGB img1 img2"
proof -
  have len: "length (data img1) = 4 * (width img1 * height img1)"
    using assms(1) by (simp add: wellFormed_def)
  have eq: "data img1 ! n = data img2 ! n" if "n < length (data img1)" "n mod 4 \<noteq> 3" for n
    using assms(2) that by (simp add: sameRGB_def)
  have "data img1 ! (4 * k) = data img2 ! (4 * k)
        \<and> data img1 ! (4 * k + 1) = data img2 ! (4 * k + 1)
        \<and> data img1 ! (4 * k + 2) = data img2 ! (4 * k + 2)"
    if k: "k < width img1 * height img1" for k
  proof (intro conjI)
    show "data img1 ! (4 * k) = data img2 ! (4 * k)"
      using k len by (intro eq) simp_all
    show "data img1 ! (4 * k + 1) = data img2 ! (4 * k + 1)"
      using k len by (intro eq) (simp_all add: mod_Suc)
    show "data img1 ! (4 * k + 2) = data img2 ! (4 * k + 2)"
    proof (rule eq)
      show "4 * k + 2 < length (data img1)" using k len by simp
      have "(4 * k + 2) mod 4 = 2" by presburger
      then show "(4 * k + 2) mod 4 \<noteq> 3" by simp
    qed
  qed
  moreover have "width img1 = width img2" "height img1 = height img2"
    using assms(2) by (simp_all add: sameRGB_def)
  ultimately show ?thesis unfolding agreeRGB_def by blast
qed

lemma detectAxis_sameRGB_eq:
  assumes "wellFormed img1" and "sameRGB img1 img2"
  shows "detectAxis img1 direction = detectAxis img2 direction"
  using sameRGB_agreeRGB[OF assms] by (rule detectAxis_agreeRGB)



section \<open>Properties of the seam detector\<close>

lemma less_9_cases: "k < (9::nat) \<Longrightarrow> k \<in> {0, 1, 2, 3, 4, 5, 6, 7, 8}"
  by (simp only: insert_iff empty_iff) arith

lemma less_4_cases: "k < (4::nat) \<Longrightarrow> k \<in> {0, 1, 2, 3}"
  by (simp only: insert_iff empty_iff) arith

lemma uniformImage_ok: "wellFormed uniformImage \<and> uniform uniformImage 7 8 9"
proof -
  have "uniform uniformImage 7 8 9"
    unfolding uniform_def
  proof (intro allI impI)
    fix k assume "k < width uniformImage * height uniformImage"
    then have "k < 9" by (simp add: uniformImage_def)
    then have "k \<in> {0, 1, 2, 3, 4, 5, 6, 7, 8}" by (rule less_9_cases)
    then show "data uniformImage ! (4 * k) = 7 \<and> data uniformImage ! (4 * k + 1) = 8 \<and> data uniformImage ! (4 * k + 2) = 9"
      by (auto simp add: uniformImage_def)
  qed
  then show ?thesis by (simp add: wellFormed_def uniformImage_def)
qed

lemma stripImage_ok: "wellFormed stripImage \<and> uniform stripImage 20 30 40"
proof -
  have "uniform stripImage 20 30 40"
    unfolding uniform_def
  proof (intro allI impI)
    fix k assume "k < width stripImage * height stripImage"
    then have "k < 4" by (simp add: stripImage_def)
    then have "k \<in> {0, 1, 2, 3}" by (rule less_4_cases)
    then show "data stripImage ! (4 * k) = 20 \<and> data stripImage ! (4 * k + 1) = 30 \<and> data stripImage ! (4 * k + 2) = 40"
      by (auto simp add: stripImage_def)
  qed
  then show ?thesis by (simp add: wellFormed_def stripImage_def)
qed

lemma stripImage_sameRGB: "sameRGB stripImage stripImageFaded"
proof -
  have "\<forall>i\<in>set [0..<16]. i mod 4 \<noteq> 3 \<longrightarrow> data stripImage ! i = data stripImageFaded ! i"
    by (simp add: upt_rec stripImage_def stripImageFaded_def)
  then show ?thesis
    by (simp add: sameRGB_def stripImage_def stripImageFaded_def)
qed

lemma bandedImage_variances:
  "variances bandedImage HORIZONTAL = [0, 0, 0, 65025 / 4, 0, 0, 0]"
  by (simp add: variances_def lineVariance_def varianceStep_def bandedImage_def axisLimit_def
      crossLimit_def sampled_def pixelIdx_def channel_def upt_rec Let_def)

lemma bandedImage_scores:
  "scores bandedImage HORIZONTAL = [0, 0, 0, 306, 306, 0, 0]"
  by (simp add: scores_def lineScore_def diffStep_def bandedImage_def axisLimit_def
      crossLimit_def sampled_def pixelIdx_def channel_def upt_rec Let_def)

lemma bandedImage_smoothed:
  "smoothScores smoothWindow [0, 0, 0, 306, 306, 0, 0] 7
     = [0, 0, 612 / 5, 612 / 5, 612 / 5, 0, 0]"
  by (simp add: smoothScores_def smoothWindow_def windowSum_def upt_rec upto.simps)

lemma bandedImage_peaks:
  "detectPeaks [0, 0, 612 / 5, 612 / 5, 612 / 5, 0, 0] 7 = []"
  by (simp add: detectPeaks_def Let_def upt_rec filterEdges_def)

lemma bandedImage_rows: "detectAxis bandedImage HORIZONTAL = [1, 5]"
proof -
  have l: "axisLimit bandedImage HORIZONTAL = 7"
    by (simp add: axisLimit_def bandedImage_def)
  have g: "findGaps [0, 0, 0, 65025 / 4, 0, 0, 0] 7 = [1, 5]"
    by (simp add: findGaps_def gapStep_def closeGap_def gapThreshold_def upt_rec)
  have c: "combineSplits 7 [1, 5] [] = [1, 5]"
    by (simp add: combineSplits_def margin_def)
  show ?thesis
    using c
    by (simp add: detectAxis_def Let_def l bandedImage_variances bandedImage_scores
        bandedImage_smoothed bandedImage_peaks g)
qed

lemma bandedImage_ok: "wellFormed bandedImage"
  by (simp add: wellFormed_def bandedImage_def)

text \<open>
  Claim C4: for an image of positive width and height whose buffer has four bytes per pixel,
  both split lists of the detector are strictly increasing, and every split lies strictly
  inside \<open>(margin, limit - margin)\<close>, hence strictly between 0 and the length of the axis,
  where the margin is 2 percent of that length.
\<close>

theorem detectAxis_strictly_increasing_inside_margin:
  assumes "wellFormed img"
  shows "sorted_wrt (<) (detectAxis img direction)
   \<and> list_all (\<lambda>s. margin (axisLimit img direction) < real s
                   \<and> real s < real (axisLimit img direction) - margin (axisLimit img direction)
                   \<and> 0 < s \<and> s < axisLimit img direction)
        (detectAxis img direction)"
  using detectAxis_inMargin[of img direction] inMargin_inside[of "axisLimit img direction"]
  by (auto simp add: list_all_iff inMargin_def)

theorem detectAxis_strictly_increasing_inside_margin_witness:
  "wellFormed bandedImage
   \<and> detectAxis bandedImage HORIZONTAL = [1, 5]
   \<and> sorted_wrt (<) [1, 5 :: nat]
   \<and> margin 7 < real 1 \<and> real 5 < real 7 - margin 7"
  using bandedImage_ok bandedImage_rows
    detectAxis_strictly_increasing_inside_margin[of bandedImage HORIZONTAL]
  by (simp add: axisLimit_def bandedImage_def)

text \<open>
  Claim C2 says that a uniform single-colour image gives two empty split lists. The edge
  channel indeed finds nothing, but every line of a uniform image has variance 0, so the gap
  channel sees one low-variance run over the whole axis and, when the axis has at least
  three lines, records its midpoint: on the 3 by 3 image both lists are \<open>[1]\<close>.
\<close>

theorem detectSplits_uniform_counterexample:
  "wellFormed uniformImage \<and> uniform uniformImage 7 8 9
   \<and> detectSplits uniformImage = ([1], [1])
   \<and> detectSplits uniformImage \<noteq> ([], [])"
  using uniformImage_ok detectAxis_uniform_value[of uniformImage 7 8 9]
  by (simp add: detectSplits_def axisLimit_def uniformImage_def)

text \<open>
  Claim C2 as amended: for a uniform image of positive width and height each split list is
  empty when its axis is shorter than three lines, and otherwise holds the single position
  \<open>(limit - 1) div 2\<close>, the midpoint of the run of low variance covering the axis.
\<close>

theorem detectSplits_uniform:
  assumes "wellFormed img" and "uniform img r g b"
  shows "detectSplits img =
           (if height img < 3 then [] else [(height img - 1) div 2],
            if width img < 3 then [] else [(width img - 1) div 2])"
  using detectAxis_uniform_value[OF assms] by (simp add: detectSplits_def axisLimit_def)

theorem detectSplits_uniform_witness:
  "wellFormed stripImage \<and> uniform stripImage 20 30 40 \<and> detectSplits stripImage = ([], [1])"
  using stripImage_ok detectSplits_uniform[of stripImage 20 30 40]
  by (simp add: stripImage_def)

text \<open>
  Claim C9: seam detection never reads the alpha channel. Two images of the same width and
  height that agree on every R, G and B byte get the same split lists on both axes.
\<close>

theorem detectSplits_ignores_alpha:
  assumes "wellFormed img1" and "sameRGB img1 img2"
  shows "detectAxis img1 direction = detectAxis img2 direction
         \<and> detectSplits img1 = detectSplits img2"
  using detectAxis_sameRGB_eq[OF assms] by (simp add: detectSplits_def)

theorem detectSplits_ignores_alpha_witness:
  "wellFormed stripImage \<and> sameRGB stripImage stripImageFaded
   \<and> detectSplits stripImageFaded = ([], [1])"
proof -
  have "detectSplits stripImage = ([], [1])"
    using stripImage_ok detectAxis_uniform_value[of stripImage 20 30 40]
    by (simp add: detectSplits_def axisLimit_def stripImage_def)
  then show ?thesis
    using stripImage_ok stripImage_sameRGB
      detectSplits_ignores_alpha[of stripImage stripImageFaded HORIZONTAL]
    by simp
qed

section \<open>Flood fill: the loop and its invariant\<close>

subsection \<open>Pixel indices\<close>





subsection \<open>Matching is decided on the original bytes\<close>




subsection \<open>The neighbours pushed\<close>





subsection \<open>Each iteration keeps the invariant\<close>






subsection \<open>The result of the loop\<close>







lemma floodLoop_length:
  "length (floodLoop w h start tolerance stack visited d) = length d"
  by (induction w h start tolerance stack visited d rule: floodLoop.induct) (simp_all add: Let_def)

lemma floodLoop_keeps_zero:
  "d ! i = 0 \<Longrightarrow> floodLoop w h start tolerance stack visited d ! i = 0"
proof (induction w h start tolerance stack visited d rule: floodLoop.induct)
  case (1 w h start tolerance visited d)
  then show ?case by simp
next
  case (2 w h start tolerance x y stack visited d)
  have upd: "d[getPixelIndex w x y + 3 := 0] ! i = 0"
  proof (cases "getPixelIndex w x y + 3 < length d")
    case True
    then show ?thesis using "2.prems" by (simp add: nth_list_update)
  next
    case False
    then show ?thesis using "2.prems" by (simp add: list_update_beyond)
  qed
  show ?case
    using 2 upd by (simp add: Let_def)
qed

lemma floodFill_unfold:
  "floodFill img startX startY tolerance =
     (if readByte (data img) (pixelAt img (startX, startY) + 3) = Some 0 then img
      else img\<lparr>data := floodLoop (width img) (height img) (startOf img (startX, startY)) tolerance
                          [(startX, startY)] {} (data img)\<rparr>)"
  by (simp add: floodFill_def Let_def startOf_def pixelAt_def)






subsection \<open>Idempotence\<close>

lemma colorMatch_in_range:
  assumes "colorMatch d start tolerance idx"
  shows "idx + 2 < length d"
proof -
  obtain sr sg sb where s: "start = (sr, sg, sb)" by (cases start)
  have "withinTolerance (readByte d (idx + 2)) sb tolerance"
    using assms by (simp add: colorMatch_def s Let_def split: if_splits)
  then have "readByte d (idx + 2) \<noteq> None" by (auto simp add: withinTolerance_def split: option.splits)
  then show ?thesis by (simp add: readByte_def split: if_splits)
qed

text \<open>
  Claim C7: a second \<open>floodFill\<close> with the same seed and tolerance leaves the result of
  the first unchanged. Either the first call erased nothing, or it erased the seed, and then
  the second returns at once.
\<close>

theorem floodFill_idempotent:
  assumes "wellFormed img"
  shows "floodFill (floodFill img startX startY tolerance) startX startY tolerance
           = floodFill img startX startY tolerance"
proof (cases "readByte (data img) (pixelAt img (startX, startY) + 3) = Some 0")
  case True
  then show ?thesis by (simp add: floodFill_unfold)
next
  case False
  let ?idx = "getPixelIndex (width img) startX startY"
  let ?start = "startOf img (startX, startY)"
  let ?L = "floodLoop (width img) (height img) ?start tolerance [(startX, startY)] {} (data img)"
  have out: "floodFill img startX startY tolerance = img\<lparr>data := ?L\<rparr>"
    using False by (simp add: floodFill_unfold)
  show ?thesis
  proof (cases "colorMatch (data img) ?start tolerance ?idx")
    case nm: False
    then have "?L = data img" by simp
    then show ?thesis using out by simp
  next
    case True
    have "?idx + 2 < length (data img)" using True by (rule colorMatch_in_range)
    moreover have "length (data img) mod 4 = 0" "?idx mod 4 = 0"
      using assms by (simp_all add: wellFormed_def getPixelIndex_def)
    ultimately have rng: "?idx + 3 < length (data img)" by presburger
    have "?L = floodLoop (width img) (height img) ?start tolerance
                 (pushNeighbors (width img) (height img) startX startY []) {(startX, startY)}
                 ((data img)[?idx + 3 := 0])"
      using True by simp
    moreover have "(data img)[?idx + 3 := 0] ! (?idx + 3) = 0" using rng by simp
    ultimately have "?L ! (?idx + 3) = 0" by (simp add: floodLoop_keeps_zero)
    moreover have "length ?L = length (data img)" by (rule floodLoop_length)
    ultimately have "readByte ?L (?idx + 3) = Some 0" using rng by (simp add: readByte_def)
    then have "floodFill (img\<lparr>data := ?L\<rparr>) startX startY tolerance = img\<lparr>data := ?L\<rparr>"
      by (simp add: floodFill_unfold pixelAt_def)
    then show ?thesis using out by simp
  qed
qed

theorem floodFill_idempotent_witness:
  "wellFormed barrierImage
   \<and> floodFill barrierImage 2 0 0 = barrierImage\<lparr>data := [10, 10, 10, 255,  10, 10, 20, 255,  10, 10, 10, 0]\<rparr>
   \<and> floodFill (floodFill barrierImage 2 0 0) 2 0 0 = floodFill barrierImage 2 0 0"
proof -
  have wf: "wellFormed barrierImage" by (simp add: wellFormed_def barrierImage_def)
  have "floodFill barrierImage 2 0 0 = barrierImage\<lparr>data := [10, 10, 10, 255,  10, 10, 20, 255,  10, 10, 10, 0]\<rparr>"
    by (simp add: floodFill_def barrierImage_def getPixelIndex_def readByte_def colorMatch_def
      withinTolerance_def pushNeighbors_def Let_def)
  then show ?thesis using wf floodFill_idempotent[OF wf, of 2 0 0] by simp
qed

section \<open>Largest connected component: labelling and selection\<close>

lemma toInt32_id: "0 \<le> n \<Longrightarrow> n < 2 ^ 31 \<Longrightarrow> toInt32 n = n"
  by (simp add: toInt32_def int_word_sint)

subsection \<open>Components\<close>

lemma adjacent4_sym: "adjacent4 w i j \<Longrightarrow> adjacent4 w j i"
  by (auto simp add: adjacent4_def)

lemma sym_fgEdges: "sym (fgEdges maskData w h)"
  by (auto simp add: sym_def fgEdges_def adjacent4_sym)

lemma component_self: "i \<in> component maskData w h i"
  by (simp add: component_def)

lemma component_subset:
  assumes "s \<in> fgPixels maskData w h"
  shows "component maskData w h s \<subseteq> fgPixels maskData w h"
proof
  fix j assume "j \<in> component maskData w h s"
  then have "(s, j) \<in> (fgEdges maskData w h)\<^sup>*" by (simp add: component_def)
  then show "j \<in> fgPixels maskData w h"
    using assms by (induction rule: rtrancl_induct) (auto simp add: fgEdges_def)
qed

lemma finite_fgPixels: "finite (fgPixels maskData w h)"
  by (simp add: fgPixels_def)

lemma finite_component:
  "s \<in> fgPixels maskData w h \<Longrightarrow> finite (component maskData w h s)"
  by (rule finite_subset[OF component_subset finite_fgPixels])

lemma component_sym:
  "j \<in> component maskData w h i \<Longrightarrow> i \<in> component maskData w h j"
  unfolding component_def using sym_fgEdges[of maskData w h]
  by (simp add: sym_rtrancl symD)

lemma component_trans:
  "j \<in> component maskData w h i \<Longrightarrow> k \<in> component maskData w h j \<Longrightarrow> k \<in> component maskData w h i"
  unfolding component_def by auto

lemma component_eq:
  assumes "j \<in> component maskData w h i"
  shows "component maskData w h j = component maskData w h i"
  using assms component_sym component_trans by blast

lemma component_step:
  "j \<in> component maskData w h i \<Longrightarrow> (j, k) \<in> fgEdges maskData w h \<Longrightarrow> k \<in> component maskData w h i"
  unfolding component_def by auto

lemma component_closed:
  assumes "s \<in> S" and "\<forall>j\<in>S. \<forall>k. (j, k) \<in> fgEdges maskData w h \<longrightarrow> k \<in> S"
  shows "component maskData w h s \<subseteq> S"
proof
  fix j assume "j \<in> component maskData w h s"
  then have "(s, j) \<in> (fgEdges maskData w h)\<^sup>*" by (simp add: component_def)
  then show "j \<in> S"
    using assms by (induction rule: rtrancl_induct) blast+
qed

subsection \<open>The four neighbours of a pixel\<close>

lemma neighbors_adjacent:
  assumes "c < w * h"
  shows "(j < w * h \<and> adjacent4 w c j) \<longleftrightarrow>
         (\<exists>n\<in>set (neighbors (int (c mod w)) (int (c div w))).
            fst n \<ge> 0 \<and> fst n < int w \<and> snd n \<ge> 0 \<and> snd n < int h \<and> j = nat (snd n * int w + fst n))"
proof -
  have w: "0 < w" using assms by (cases w) simp_all
  have ch: "c div w < h" using assms by (simp add: less_mult_imp_div_less mult.commute)
  have cw: "c mod w < w" using w by simp
  have decomp: "j = (j div w) * w + j mod w" by simp
  show ?thesis
  proof
    assume a: "j < w * h \<and> adjacent4 w c j"
    then have jh: "j div w < h" by (simp add: less_mult_imp_div_less mult.commute)
    have jw: "j mod w < w" using w by simp
    have j: "j = nat (int (j div w) * int w + int (j mod w))"
      by (metis decomp nat_int of_nat_add of_nat_mult)
    from a have "adjacent4 w c j" by simp
    then consider
        "c div w = j div w" "c mod w + 1 = j mod w"
      | "c div w = j div w" "j mod w + 1 = c mod w"
      | "c mod w = j mod w" "c div w + 1 = j div w"
      | "c mod w = j mod w" "j div w + 1 = c div w"
      by (auto simp add: adjacent4_def)
    then show "\<exists>n\<in>set (neighbors (int (c mod w)) (int (c div w))).
            fst n \<ge> 0 \<and> fst n < int w \<and> snd n \<ge> 0 \<and> snd n < int h \<and> j = nat (snd n * int w + fst n)"
    proof cases
      case 1
      have "(int (c mod w) + 1, int (c div w)) \<in> set (neighbors (int (c mod w)) (int (c div w)))"
        by (simp add: neighbors_def)
      moreover have "int (c mod w) + 1 = int (j mod w)" "int (c div w) = int (j div w)"
        using 1 by simp_all
      ultimately show ?thesis using j jh jw by (intro bexI[of _ "(int (c mod w) + 1, int (c div w))"]) simp_all
    next
      case 2
      have "(int (c mod w) - 1, int (c div w)) \<in> set (neighbors (int (c mod w)) (int (c div w)))"
        by (simp add: neighbors_def)
      moreover have "int (c mod w) - 1 = int (j mod w)" "int (c div w) = int (j div w)"
        using 2 by simp_all
      ultimately show ?thesis using j jh jw by (intro bexI[of _ "(int (c mod w) - 1, int (c div w))"]) simp_all
    next
      case 3
      have "(int (c mod w), int (c div w) + 1) \<in> set (neighbors (int (c mod w)) (int (c div w)))"
        by (simp add: neighbors_def)
      moreover have "int (c mod w) = int (j mod w)" "int (c div w) + 1 = int (j div w)"
        using 3 by simp_all
      ultimately show ?thesis using j jh jw by (intro bexI[of _ "(int (c mod w), int (c div w) + 1)"]) simp_all
    next
      case 4
      have "(int (c mod w), int (c div w) - 1) \<in> set (neighbors (int (c mod w)) (int (c div w)))"
        by (simp add: neighbors_def)
      moreover have "int (c mod w) = int (j mod w)" "int (c div w) - 1 = int (j div w)"
        using 4 by simp_all
      ultimately show ?thesis using j jh jw by (intro bexI[of _ "(int (c mod w), int (c div w) - 1)"]) simp_all
    qed
  next
    assume "\<exists>n\<in>set (neighbors (int (c mod w)) (int (c div w))).
            fst n \<ge> 0 \<and> fst n < int w \<and> snd n \<ge> 0 \<and> snd n < int h \<and> j = nat (snd n * int w + fst n)"
    then obtain nx ny where n: "(nx, ny) \<in> set (neighbors (int (c mod w)) (int (c div w)))"
      and r: "0 \<le> nx" "nx < int w" "0 \<le> ny" "ny < int h" and j: "j = nat (ny * int w + nx)"
      by auto
    have j': "j = nat ny * w + nat nx"
      using r j by (simp add: nat_add_distrib nat_mult_distrib)
    have jm: "j mod w = nat nx" and jd: "j div w = nat ny"
      using r j' by simp_all
    have "j < w * h"
      using r j' raster_bound[of "nat ny" h "nat nx" w] by simp
    moreover have "adjacent4 w c j"
      using n r unfolding adjacent4_def jm jd neighbors_def by auto
    ultimately show "j < w * h \<and> adjacent4 w c j" by simp
  qed
qed

subsection \<open>One search labels one component\<close>

lemma visitNeighbor_unfold:
  "visitNeighbor maskData w h lab n (visited, labels, queue) =
     (if inGrid w h n \<and> isForeground maskData (gridIdx w n) \<and> unvisited visited (gridIdx w n)
      then (visited[gridIdx w n := 1], labels[gridIdx w n := toInt32 lab], queue @ [gridIdx w n])
      else (visited, labels, queue))"
  by (cases n) (simp add: visitNeighbor_def inGrid_def gridIdx_def Let_def)

lemma visitedSet_update:
  assumes "i < length visited"
  shows "visitedSet (visited[i := 1]) = insert i (visitedSet visited)"
  using assms by (auto simp add: visitedSet_def nth_list_update)

lemma neighbors_adjacent_grid:
  assumes "c < w * h"
  shows "(j < w * h \<and> adjacent4 w c j) \<longleftrightarrow>
         (\<exists>n\<in>set (neighbors (int (c mod w)) (int (c div w))). inGrid w h n \<and> j = gridIdx w n)"
  using neighbors_adjacent[OF assms, of j] by (simp add: inGrid_def gridIdx_def)

lemma visitNeighbor_inv:
  assumes s: "s \<in> fgPixels maskData w h" and v0: "V0 \<inter> component maskData w h s = {}"
    and inv: "bfsInv maskData w h lab s V0 L0 (visited, labels, queue)"
    and c: "c \<in> set queue" and n: "n \<in> set (neighbors (int (c mod w)) (int (c div w)))"
  shows "bfsInv maskData w h lab s V0 L0 (visitNeighbor maskData w h lab n (visited, labels, queue))"
    and "\<exists>xs. snd (snd (visitNeighbor maskData w h lab n (visited, labels, queue))) = queue @ xs"
    and "inGrid w h n \<and> isForeground maskData (gridIdx w n)
           \<longrightarrow> gridIdx w n \<in> set (snd (snd (visitNeighbor maskData w h lab n (visited, labels, queue))))"
proof -
  let ?j = "gridIdx w n"
  let ?C = "component maskData w h s"
  have lens: "length visited = w * h" "length labels = w * h" using inv by (simp_all add: bfsInv_def)
  have qC: "set queue \<subseteq> ?C" using inv by (simp add: bfsInv_def)
  have vs: "visitedSet visited = V0 \<union> set queue" using inv by (simp add: bfsInv_def)
  have cC: "c \<in> ?C" using c qC by blast
  then have cfg: "c \<in> fgPixels maskData w h" using component_subset[OF s] by blast
  then have cr: "c < w * h" by (simp add: fgPixels_def)
  have jC: "?j \<in> ?C \<and> ?j < w * h" if g: "inGrid w h n" and f: "isForeground maskData ?j"
  proof -
    have a: "?j < w * h \<and> adjacent4 w c ?j"
      using neighbors_adjacent_grid[OF cr, of ?j] n g by blast
    then have "?j \<in> fgPixels maskData w h" using f by (simp add: fgPixels_def)
    then have "(c, ?j) \<in> fgEdges maskData w h" using cfg a by (simp add: fgEdges_def)
    then show ?thesis using cC component_step a by blast
  qed
  show "bfsInv maskData w h lab s V0 L0 (visitNeighbor maskData w h lab n (visited, labels, queue))"
  proof (cases "inGrid w h n \<and> isForeground maskData ?j \<and> unvisited visited ?j")
    case True
    then have jc: "?j \<in> ?C" and jr: "?j < w * h" using jC by blast+
    have "?j \<notin> visitedSet visited" using True by (simp add: unvisited_def visitedSet_def)
    then have jq: "?j \<notin> set queue" using vs by blast
    have "visitedSet (visited[?j := 1]) = V0 \<union> set (queue @ [?j])"
      using visitedSet_update[of ?j visited] jr lens vs by auto
    moreover have "\<forall>i < w * h. labels[?j := toInt32 lab] ! i
                      = (if i \<in> set (queue @ [?j]) then toInt32 lab else L0 ! i)"
    proof (intro allI impI)
      fix i assume i: "i < w * h"
      have old: "labels ! i = (if i \<in> set queue then toInt32 lab else L0 ! i)"
        using inv i by (simp add: bfsInv_def)
      show "labels[?j := toInt32 lab] ! i = (if i \<in> set (queue @ [?j]) then toInt32 lab else L0 ! i)"
        using old i lens by (cases "i = ?j") (simp_all add: nth_list_update)
    qed
    ultimately show ?thesis
      using True inv lens jq jc by (simp add: visitNeighbor_unfold bfsInv_def)
  next
    case False
    then have "visitNeighbor maskData w h lab n (visited, labels, queue) = (visited, labels, queue)"
      unfolding visitNeighbor_unfold by (rule if_not_P)
    then show ?thesis using inv by simp
  qed
  show "\<exists>xs. snd (snd (visitNeighbor maskData w h lab n (visited, labels, queue))) = queue @ xs"
    by (simp add: visitNeighbor_unfold)
  show "inGrid w h n \<and> isForeground maskData ?j
           \<longrightarrow> ?j \<in> set (snd (snd (visitNeighbor maskData w h lab n (visited, labels, queue))))"
  proof
    assume a: "inGrid w h n \<and> isForeground maskData ?j"
    then have jc: "?j \<in> ?C" and jr: "?j < w * h" using jC by blast+
    show "?j \<in> set (snd (snd (visitNeighbor maskData w h lab n (visited, labels, queue))))"
    proof (cases "unvisited visited ?j")
      case True
      then show ?thesis using a by (simp add: visitNeighbor_unfold)
    next
      case False
      then have "?j \<in> visitedSet visited" using jr lens by (simp add: unvisited_def visitedSet_def)
      then have "?j \<in> set queue" using vs jc v0 by blast
      then show ?thesis using False by (simp add: visitNeighbor_unfold)
    qed
  qed
qed

lemma fold_visitNeighbor_inv:
  assumes s: "s \<in> fgPixels maskData w h" and v0: "V0 \<inter> component maskData w h s = {}"
    and inv: "bfsInv maskData w h lab s V0 L0 st"
    and c: "c \<in> set (snd (snd st))"
    and ns: "set ns \<subseteq> set (neighbors (int (c mod w)) (int (c div w)))"
  shows "bfsInv maskData w h lab s V0 L0 (fold (visitNeighbor maskData w h lab) ns st)
       \<and> (\<exists>xs. snd (snd (fold (visitNeighbor maskData w h lab) ns st)) = snd (snd st) @ xs)
       \<and> (\<forall>n\<in>set ns. inGrid w h n \<and> isForeground maskData (gridIdx w n)
             \<longrightarrow> gridIdx w n \<in> set (snd (snd (fold (visitNeighbor maskData w h lab) ns st))))"
  using inv c ns
proof (induction ns arbitrary: st)
  case Nil
  then show ?case by simp
next
  case (Cons n ns)
  obtain visited labels queue where st: "st = (visited, labels, queue)" by (cases st)
  let ?st1 = "visitNeighbor maskData w h lab n st"
  have n: "n \<in> set (neighbors (int (c mod w)) (int (c div w)))" using Cons.prems(3) by simp
  have cq: "c \<in> set queue" using Cons.prems(2) st by simp
  note step = visitNeighbor_inv[OF s v0 Cons.prems(1)[unfolded st] cq n, folded st]
  obtain xs where xs: "snd (snd ?st1) = snd (snd st) @ xs" using step(2) st by auto
  have c1: "c \<in> set (snd (snd ?st1))" using xs Cons.prems(2) by simp
  have ns': "set ns \<subseteq> set (neighbors (int (c mod w)) (int (c div w)))" using Cons.prems(3) by simp
  note ih = Cons.IH[OF step(1) c1 ns']
  let ?st2 = "fold (visitNeighbor maskData w h lab) ns ?st1"
  obtain ys where ys: "snd (snd ?st2) = snd (snd ?st1) @ ys" using ih by blast
  have a: "bfsInv maskData w h lab s V0 L0 (fold (visitNeighbor maskData w h lab) (n # ns) st)"
    using ih by simp
  have b: "\<exists>zs. snd (snd (fold (visitNeighbor maskData w h lab) (n # ns) st)) = snd (snd st) @ zs"
    using xs ys by simp
  have "inGrid w h n \<and> isForeground maskData (gridIdx w n) \<longrightarrow> gridIdx w n \<in> set (snd (snd ?st2))"
    using step(3) ys st by auto
  then have d: "\<forall>m\<in>set (n # ns). inGrid w h m \<and> isForeground maskData (gridIdx w m)
             \<longrightarrow> gridIdx w m \<in> set (snd (snd (fold (visitNeighbor maskData w h lab) (n # ns) st)))"
    using ih by simp
  show ?case using a b d by blast
qed

lemma bfs_step:
  assumes s: "s \<in> fgPixels maskData w h" and v0: "V0 \<inter> component maskData w h s = {}"
    and inv: "bfsInv maskData w h lab s V0 L0 st"
    and hd: "head < length (snd (snd st))"
    and cl: "bfsClosed maskData w h head (snd (snd st))"
  defines "c \<equiv> snd (snd st) ! head"
  defines "st' \<equiv> fold (visitNeighbor maskData w h lab) (neighbors (int (c mod w)) (int (c div w))) st"
  shows "bfsInv maskData w h lab s V0 L0 st'"
    and "head + 1 \<le> length (snd (snd st'))"
    and "bfsClosed maskData w h (head + 1) (snd (snd st'))"
proof -
  let ?q = "snd (snd st)"
  have cq: "c \<in> set ?q" using hd by (simp add: c_def)
  note f = fold_visitNeighbor_inv[OF s v0 inv cq subset_refl, folded st'_def]
  show "bfsInv maskData w h lab s V0 L0 st'" using f by blast
  obtain xs where xs: "snd (snd st') = ?q @ xs" using f by blast
  show "head + 1 \<le> length (snd (snd st'))" using xs hd by simp
  have qC: "set ?q \<subseteq> component maskData w h s" using inv by (cases st) (simp add: bfsInv_def)
  have "c \<in> fgPixels maskData w h" using cq qC component_subset[OF s] by blast
  then have cr: "c < w * h" by (simp add: fgPixels_def)
  show "bfsClosed maskData w h (head + 1) (snd (snd st'))"
    unfolding bfsClosed_def
  proof (intro allI impI)
    fix k j assume k: "k < head + 1" and e: "(snd (snd st') ! k, j) \<in> fgEdges maskData w h"
    have same: "snd (snd st') ! k = ?q ! k" using xs k hd by (simp add: nth_append)
    show "j \<in> set (snd (snd st'))"
    proof (cases "k < head")
      case True
      then have "j \<in> set ?q" using cl e same by (simp add: bfsClosed_def)
      then show ?thesis using xs by simp
    next
      case False
      then have "snd (snd st') ! k = c" using k same by (simp add: c_def less_Suc_eq)
      then have "(c, j) \<in> fgEdges maskData w h" using e by simp
      then have jf: "isForeground maskData j" and "j < w * h \<and> adjacent4 w c j"
        by (simp_all add: fgEdges_def fgPixels_def)
      then obtain n where "n \<in> set (neighbors (int (c mod w)) (int (c div w)))" "inGrid w h n" "j = gridIdx w n"
        using neighbors_adjacent_grid[OF cr, of j] by blast
      then show ?thesis using f jf by blast
    qed
  qed
qed

lemma bfs_correct:
  assumes s: "s \<in> fgPixels maskData w h" and v0: "V0 \<inter> component maskData w h s = {}"
    and inv: "bfsInv maskData w h lab s V0 L0 st"
    and hd: "head \<le> length (snd (snd st))"
    and cl: "bfsClosed maskData w h head (snd (snd st))"
    and cnt: "count = head"
  shows "case bfs maskData w h lab head count st of
           (visited', labels', count') \<Rightarrow>
             length visited' = w * h \<and> length labels' = w * h
             \<and> visitedSet visited' = V0 \<union> component maskData w h s
             \<and> (\<forall>i < w * h. labels' ! i = (if i \<in> component maskData w h s then toInt32 lab else L0 ! i))
             \<and> count' = card (component maskData w h s)"
  using s v0 inv hd cl cnt
proof (induction maskData w h lab head count st rule: bfs.induct)
  case (1 maskData w h lab head count st)
  show ?case
  proof (cases "head < length (snd (snd st))")
    case True
    let ?c = "snd (snd st) ! head"
    let ?st' = "fold (visitNeighbor maskData w h lab) (neighbors (int (?c mod w)) (int (?c div w))) st"
    note step = bfs_step[OF "1.prems"(1,2,3) True "1.prems"(5)]
    have "case bfs maskData w h lab (head + 1) (count + 1) ?st' of
           (visited', labels', count') \<Rightarrow>
             length visited' = w * h \<and> length labels' = w * h
             \<and> visitedSet visited' = V0 \<union> component maskData w h s
             \<and> (\<forall>i < w * h. labels' ! i = (if i \<in> component maskData w h s then toInt32 lab else L0 ! i))
             \<and> count' = card (component maskData w h s)"
      using "1.IH"[OF True refl refl refl "1.prems"(1,2) step(1) step(2) step(3)] "1.prems"(6) by simp
    moreover have "bfs maskData w h lab head count st = bfs maskData w h lab (head + 1) (count + 1) ?st'"
      using True by (subst bfs.simps) (simp add: Let_def)
    ultimately show ?thesis by simp
  next
    case False
    obtain visited labels queue where st: "st = (visited, labels, queue)" by (cases st)
    have hq: "head = length queue" using False "1.prems"(4) st by simp
    have inv': "bfsInv maskData w h lab s V0 L0 (visited, labels, queue)" using "1.prems"(3) st by simp
    have closed: "\<forall>j\<in>set queue. \<forall>k. (j, k) \<in> fgEdges maskData w h \<longrightarrow> k \<in> set queue"
      using "1.prems"(5) hq st unfolding bfsClosed_def by (metis in_set_conv_nth snd_conv)
    have sq: "s \<in> set queue" using inv' by (simp add: bfsInv_def)
    have "component maskData w h s \<subseteq> set queue" using sq closed by (rule component_closed)
    moreover have "set queue \<subseteq> component maskData w h s" using inv' by (simp add: bfsInv_def)
    ultimately have eq: "set queue = component maskData w h s" by blast
    have "distinct queue" using inv' by (simp add: bfsInv_def)
    then have "card (set queue) = length queue" by (rule distinct_card)
    then have cnt': "count = card (component maskData w h s)" using eq hq "1.prems"(6) by simp
    have res: "bfs maskData w h lab head count st = (visited, labels, count)"
      using False st by (subst bfs.simps) simp
    show ?thesis
      unfolding res using inv' cnt' by (simp add: bfsInv_def eq)
  qed
qed

subsection \<open>The raster scan\<close>

lemma scanInvD:
  assumes "scanInv maskData w h n seeds (visited, labels, currentLabel, componentSizes)"
  shows "length visited = w * h" and "length labels = w * h"
    and "sorted_wrt (<) seeds"
    and "\<forall>s\<in>set seeds. s \<in> fgPixels maskData w h \<and> s < n \<and> (\<forall>j\<in>component maskData w h s. s \<le> j)"
    and "visitedSet visited = (\<Union>s\<in>set seeds. component maskData w h s)"
    and "\<forall>i\<in>fgPixels maskData w h. i < n \<longrightarrow> i \<in> visitedSet visited"
    and "\<forall>i < w * h. (\<forall>k < length seeds. i \<in> component maskData w h (seeds ! k) \<longrightarrow> labels ! i = int k + 1)
                        \<and> (i \<notin> (\<Union>s\<in>set seeds. component maskData w h s) \<longrightarrow> labels ! i = 0)"
    and "currentLabel = int (length seeds) + 1"
    and "componentSizes = map (\<lambda>k. (int k + 1, card (component maskData w h (seeds ! k)))) [0..<length seeds]"
  using assms unfolding scanInv_def prod.case by blast+

lemma scanInvI:
  assumes "length visited = w * h" and "length labels = w * h"
    and "sorted_wrt (<) seeds"
    and "\<forall>s\<in>set seeds. s \<in> fgPixels maskData w h \<and> s < n \<and> (\<forall>j\<in>component maskData w h s. s \<le> j)"
    and "visitedSet visited = (\<Union>s\<in>set seeds. component maskData w h s)"
    and "\<forall>i\<in>fgPixels maskData w h. i < n \<longrightarrow> i \<in> visitedSet visited"
    and "\<forall>i < w * h. (\<forall>k < length seeds. i \<in> component maskData w h (seeds ! k) \<longrightarrow> labels ! i = int k + 1)
                        \<and> (i \<notin> (\<Union>s\<in>set seeds. component maskData w h s) \<longrightarrow> labels ! i = 0)"
    and "currentLabel = int (length seeds) + 1"
    and "componentSizes = map (\<lambda>k. (int k + 1, card (component maskData w h (seeds ! k)))) [0..<length seeds]"
  shows "scanInv maskData w h n seeds (visited, labels, currentLabel, componentSizes)"
  unfolding scanInv_def prod.case using assms by blast

lemma increasing_length_le:
  assumes "sorted_wrt (<) (xs :: nat list)" and "\<forall>x\<in>set xs. x < n"
  shows "length xs \<le> n"
proof -
  have "distinct xs" using assms(1) strict_sorted_iff by blast
  then have "length xs = card (set xs)" by (simp add: distinct_card)
  also have "\<dots> \<le> card {..<n}" using assms(2) by (intro card_mono) auto
  finally show ?thesis by simp
qed

lemma fold_upt_invariant:
  assumes "P 0 st" and "\<And>i st. i < k \<Longrightarrow> P i st \<Longrightarrow> P (Suc i) (f i st)"
  shows "P k (fold f [0..<k] st)"
  using assms(2)
proof (induction k)
  case 0
  show ?case using assms(1) by simp
next
  case (Suc k)
  have "P k (fold f [0..<k] st)" using Suc.IH Suc.prems by simp
  then show ?case using Suc.prems[of k] by simp
qed

lemma scanInv_skip:
  assumes inv: "scanInv maskData w h n seeds (visited, labels, currentLabel, componentSizes)"
    and skip: "\<not> (isForeground maskData n \<and> unvisited visited n)" and n: "n < w * h"
  shows "scanInv maskData w h (Suc n) seeds (visited, labels, currentLabel, componentSizes)"
proof -
  note d = scanInvD[OF inv]
  have cov: "\<forall>i\<in>fgPixels maskData w h. i < Suc n \<longrightarrow> i \<in> visitedSet visited"
  proof (intro ballI impI)
    fix i assume i: "i \<in> fgPixels maskData w h" "i < Suc n"
    show "i \<in> visitedSet visited"
    proof (cases "i = n")
      case True
      then have "isForeground maskData n" using i(1) by (simp add: fgPixels_def)
      then have "\<not> unvisited visited n" using skip by simp
      then show ?thesis using True n d(1) by (simp add: unvisited_def visitedSet_def)
    next
      case False
      then have "i < n" using i(2) by simp
      then show ?thesis using d(6) i(1) by blast
    qed
  qed
  have sd: "\<forall>s\<in>set seeds. s \<in> fgPixels maskData w h \<and> s < Suc n \<and> (\<forall>j\<in>component maskData w h s. s \<le> j)"
    using d(4) less_Suc_eq by blast
  show ?thesis
    by (rule scanInvI[OF d(1,2,3) sd d(5) cov d(7,8,9)])
qed

lemma scanInv_found:
  assumes bound: "w * h < 2 ^ 31"
    and inv: "scanInv maskData w h n seeds (visited, labels, currentLabel, componentSizes)"
    and fg: "isForeground maskData n" and unv: "unvisited visited n" and n: "n < w * h"
    and res: "bfs maskData w h currentLabel 0 0 (visited[n := 1], labels[n := toInt32 currentLabel], [n])
                = (visited', labels', count)"
  shows "scanInv maskData w h (Suc n) (seeds @ [n])
           (visited', labels', currentLabel + 1, componentSizes @ [(currentLabel, count)])"
proof -
  let ?comp = "component maskData w h"
  let ?V0 = "visitedSet visited"
  note iv = scanInvD[OF inv]
  note len = iv(1,2) and srt = iv(3) and seeds = iv(4) and V0 = iv(5) and cov = iv(6) and lab = iv(7)
    and cl = iv(8) and cs = iv(9)
  have nfg: "n \<in> fgPixels maskData w h" using fg n by (simp add: fgPixels_def)
  have nV0: "n \<notin> ?V0" using unv by (simp add: unvisited_def visitedSet_def)
  have disj: "?V0 \<inter> ?comp n = {}"
  proof (rule ccontr)
    assume "?V0 \<inter> ?comp n \<noteq> {}"
    then obtain j s where j: "j \<in> ?comp n" "s \<in> set seeds" "j \<in> ?comp s" using V0 by auto
    have "n \<in> ?comp j" using j(1) by (rule component_sym)
    then have "n \<in> ?comp s" using j(3) component_trans by blast
    then show False using nV0 V0 j(2) by blast
  qed
  have "length seeds \<le> n" using srt seeds by (intro increasing_length_le) auto
  then have "int (length seeds) + 1 < 2 ^ 31" using n bound by simp
  then have t32: "toInt32 currentLabel = currentLabel" using cl by (intro toInt32_id) simp_all
  have init: "bfsInv maskData w h currentLabel n ?V0 labels (visited[n := 1], labels[n := toInt32 currentLabel], [n])"
    using len n component_self[of n maskData w h] visitedSet_update[of n visited]
    by (simp add: bfsInv_def nth_list_update)
  have "case bfs maskData w h currentLabel 0 0 (visited[n := 1], labels[n := toInt32 currentLabel], [n]) of
           (visited', labels', count') \<Rightarrow>
             length visited' = w * h \<and> length labels' = w * h
             \<and> visitedSet visited' = ?V0 \<union> ?comp n
             \<and> (\<forall>i < w * h. labels' ! i = (if i \<in> ?comp n then toInt32 currentLabel else labels ! i))
             \<and> count' = card (?comp n)"
    by (rule bfs_correct[OF nfg disj init]) (simp_all add: bfsClosed_def)
  then have r0: "length visited' = w * h \<and> length labels' = w * h
      \<and> visitedSet visited' = ?V0 \<union> ?comp n
      \<and> (\<forall>i < w * h. labels' ! i = (if i \<in> ?comp n then toInt32 currentLabel else labels ! i))
      \<and> count = card (?comp n)"
    unfolding res prod.case .
  then have r: "length visited' = w * h" "length labels' = w * h"
      "visitedSet visited' = ?V0 \<union> ?comp n"
      "\<forall>i < w * h. labels' ! i = (if i \<in> ?comp n then currentLabel else labels ! i)"
      "count = card (?comp n)"
    unfolding t32 by blast+
  have min: "\<forall>j\<in>?comp n. n \<le> j"
  proof (intro ballI, rule ccontr)
    fix j assume j: "j \<in> ?comp n" and "\<not> n \<le> j"
    then have "j < n" by simp
    moreover have "j \<in> fgPixels maskData w h" using component_subset[OF nfg] j by blast
    ultimately have "j \<in> ?V0" using cov by blast
    then show False using disj j by blast
  qed
  have a: "sorted_wrt (<) (seeds @ [n])" using srt seeds by (simp add: sorted_wrt_append)
  have b: "\<forall>s\<in>set (seeds @ [n]). s \<in> fgPixels maskData w h \<and> s < Suc n \<and> (\<forall>j\<in>?comp s. s \<le> j)"
    using seeds nfg min by (auto simp add: less_Suc_eq)
  have c: "visitedSet visited' = (\<Union>s\<in>set (seeds @ [n]). ?comp s)" using r(3) V0 by auto
  have d: "\<forall>i\<in>fgPixels maskData w h. i < Suc n \<longrightarrow> i \<in> visitedSet visited'"
  proof (intro ballI impI)
    fix i assume i: "i \<in> fgPixels maskData w h" "i < Suc n"
    show "i \<in> visitedSet visited'"
    proof (cases "i = n")
      case True
      then show ?thesis using r(3) component_self by blast
    next
      case False
      then have "i < n" using i(2) by simp
      then show ?thesis using cov i(1) r(3) by blast
    qed
  qed
  have e: "\<forall>i < w * h. (\<forall>k < length (seeds @ [n]). i \<in> ?comp ((seeds @ [n]) ! k) \<longrightarrow> labels' ! i = int k + 1)
                        \<and> (i \<notin> (\<Union>s\<in>set (seeds @ [n]). ?comp s) \<longrightarrow> labels' ! i = 0)"
  proof (intro allI impI conjI)
    fix i k assume i: "i < w * h" and k: "k < length (seeds @ [n])" and m: "i \<in> ?comp ((seeds @ [n]) ! k)"
    show "labels' ! i = int k + 1"
    proof (cases "k < length seeds")
      case True
      then have m': "i \<in> ?comp (seeds ! k)" using m by (simp add: nth_append)
      then have "i \<in> ?V0" using V0 True nth_mem by blast
      then have "i \<notin> ?comp n" using disj by blast
      then have "labels' ! i = labels ! i" using r(4) i by simp
      then show ?thesis using lab i True m' by simp
    next
      case False
      then have kk: "k = length seeds" using k by simp
      then have "i \<in> ?comp n" using m by simp
      then show ?thesis using r(4) i cl kk by simp
    qed
  next
    fix i assume i: "i < w * h" and m: "i \<notin> (\<Union>s\<in>set (seeds @ [n]). ?comp s)"
    then have "i \<notin> ?comp n" "i \<notin> (\<Union>s\<in>set seeds. ?comp s)" by auto
    then show "labels' ! i = 0" using r(4) lab i by simp
  qed
  have f: "currentLabel + 1 = int (length (seeds @ [n])) + 1" using cl by simp
  have g: "componentSizes @ [(currentLabel, count)]
             = map (\<lambda>k. (int k + 1, card (?comp ((seeds @ [n]) ! k)))) [0..<length (seeds @ [n])]"
    using cs cl r(5) by (simp add: nth_append)
  show ?thesis
    by (rule scanInvI[OF r(1,2) a b c d e f g])
qed

lemma scanPixel_inv:
  assumes bound: "w * h < 2 ^ 31" and x: "x < w" and y: "y < h"
    and inv: "\<exists>seeds. scanInv maskData w h (y * w + x) seeds st"
  shows "\<exists>seeds. scanInv maskData w h (Suc (y * w + x)) seeds (scanPixel maskData w h y x st)"
proof -
  obtain visited labels currentLabel componentSizes
    where st: "st = (visited, labels, currentLabel, componentSizes)" by (cases st)
  obtain seeds where s: "scanInv maskData w h (y * w + x) seeds (visited, labels, currentLabel, componentSizes)"
    using inv st by blast
  let ?n = "y * w + x"
  have n: "?n < w * h" using y x by (rule raster_bound)
  show ?thesis
  proof (cases "isForeground maskData ?n \<and> unvisited visited ?n")
    case True
    obtain visited' labels' count where
      res: "bfs maskData w h currentLabel 0 0 (visited[?n := 1], labels[?n := toInt32 currentLabel], [?n])
              = (visited', labels', count)"
      by (cases "bfs maskData w h currentLabel 0 0 (visited[?n := 1], labels[?n := toInt32 currentLabel], [?n])")
    have "scanInv maskData w h (Suc ?n) (seeds @ [?n])
            (visited', labels', currentLabel + 1, componentSizes @ [(currentLabel, count)])"
      using bound s _ _ n res by (rule scanInv_found) (use True in simp_all)
    moreover have "scanPixel maskData w h y x st
                     = (visited', labels', currentLabel + 1, componentSizes @ [(currentLabel, count)])"
      using True res by (simp add: scanPixel_def st Let_def)
    ultimately show ?thesis by auto
  next
    case False
    then have "scanPixel maskData w h y x st = st" by (auto simp add: scanPixel_def st Let_def)
    moreover have "scanInv maskData w h (Suc ?n) seeds (visited, labels, currentLabel, componentSizes)"
      using s False n by (rule scanInv_skip)
    ultimately show ?thesis using st by auto
  qed
qed

lemma scanRow_inv:
  assumes bound: "w * h < 2 ^ 31" and y: "y < h"
    and inv: "\<exists>seeds. scanInv maskData w h (y * w) seeds st"
  shows "\<exists>seeds. scanInv maskData w h (Suc y * w) seeds (fold (scanPixel maskData w h y) [0..<w] st)"
proof -
  have "\<exists>seeds. scanInv maskData w h (y * w + w) seeds (fold (scanPixel maskData w h y) [0..<w] st)"
  proof (rule fold_upt_invariant[where P = "\<lambda>x st. \<exists>seeds. scanInv maskData w h (y * w + x) seeds st"])
    show "\<exists>seeds. scanInv maskData w h (y * w + 0) seeds st" using inv by simp
  next
    fix x st assume "x < w" "\<exists>seeds. scanInv maskData w h (y * w + x) seeds st"
    then show "\<exists>seeds. scanInv maskData w h (y * w + Suc x) seeds (scanPixel maskData w h y x st)"
      using scanPixel_inv[OF bound _ y] by simp
  qed
  then show ?thesis by (simp add: add.commute)
qed

lemma labelComponents_inv:
  assumes bound: "w * h < 2 ^ 31"
  shows "\<exists>seeds. scanInv maskData w h (w * h) seeds (labelComponents maskData w h (w * h))"
proof -
  have "\<exists>seeds. scanInv maskData w h (h * w) seeds
          (fold (\<lambda>y. fold (scanPixel maskData w h y) [0..<w]) [0..<h]
             (replicate (w * h) 0, replicate (w * h) 0, 1, []))"
  proof (rule fold_upt_invariant[where P = "\<lambda>y st. \<exists>seeds. scanInv maskData w h (y * w) seeds st"])
    have "scanInv maskData w h 0 [] (replicate (w * h) 0, replicate (w * h) 0, 1, [])"
      by (rule scanInvI) (simp_all add: visitedSet_def)
    then show "\<exists>seeds. scanInv maskData w h (0 * w) seeds (replicate (w * h) 0, replicate (w * h) 0, 1, [])"
      by auto
  next
    fix y st assume "y < h" "\<exists>seeds. scanInv maskData w h (y * w) seeds st"
    then show "\<exists>seeds. scanInv maskData w h (Suc y * w) seeds (fold (scanPixel maskData w h y) [0..<w] st)"
      using scanRow_inv[OF bound] by blast
  qed
  then show ?thesis by (simp add: labelComponents_def mult.commute)
qed

subsection \<open>The first largest component is kept\<close>

lemma findLargest_snoc: "findLargest (cs @ [e]) = largestStep e (findLargest cs)"
  by (simp add: findLargest_def)

lemma findLargest_first_max:
  assumes "cs \<noteq> []"
  shows "\<exists>k < length cs. findLargest cs = (fst (cs ! k), int (snd (cs ! k)))
           \<and> (\<forall>j < length cs. snd (cs ! j) \<le> snd (cs ! k))
           \<and> (\<forall>j < k. snd (cs ! j) < snd (cs ! k))"
  using assms
proof (induction cs rule: rev_induct)
  case Nil
  then show ?case by simp
next
  case (snoc e cs)
  obtain l n where e: "e = (l, n)" by (cases e)
  show ?case
  proof (cases "cs = []")
    case True
    then have "findLargest (cs @ [e]) = (l, int n)"
      by (simp add: findLargest_def largestStep_def e)
    then show ?thesis using True e by simp
  next
    case False
    then obtain k where k: "k < length cs" "findLargest cs = (fst (cs ! k), int (snd (cs ! k)))"
      "\<forall>j < length cs. snd (cs ! j) \<le> snd (cs ! k)" "\<forall>j < k. snd (cs ! j) < snd (cs ! k)"
      using snoc.IH by blast
    show ?thesis
    proof (cases "snd (cs ! k) < n")
      case True
      have "findLargest (cs @ [e]) = (l, int n)"
        using True k(2) by (simp add: findLargest_snoc largestStep_def e)
      moreover have "\<forall>j < length (cs @ [e]). snd ((cs @ [e]) ! j) \<le> n"
        using k(3) True e by (auto simp add: nth_append less_Suc_eq intro: order_trans less_imp_le)
      moreover have "\<forall>j < length cs. snd ((cs @ [e]) ! j) < n"
        using k(3) True by (auto simp add: nth_append intro: le_less_trans)
      ultimately show ?thesis
        using e by (intro exI[of _ "length cs"]) simp
    next
      case False
      have "findLargest (cs @ [e]) = (fst (cs ! k), int (snd (cs ! k)))"
        using False k(2) by (simp add: findLargest_snoc largestStep_def e)
      moreover have "\<forall>j < length (cs @ [e]). snd ((cs @ [e]) ! j) \<le> snd (cs ! k)"
        using k(3) False e by (auto simp add: nth_append less_Suc_eq)
      ultimately show ?thesis
        using k(1,4) by (intro exI[of _ k]) (simp add: nth_append)
    qed
  qed
qed

lemma newMask_nth:
  assumes "i < sz"
  shows "newMask maskData labels maxLabel sz ! i =
           (if labels ! i = maxLabel
            then (case readMask maskData i of Some v \<Rightarrow> v | None \<Rightarrow> NaN) else background)"
  using assms by (simp add: newMask_def)

lemma filterLargestComponent_nat:
  assumes "w * h < 2 ^ 31"
  shows "filterLargestComponent maskData (int w) (int h) =
     Inr (newMask maskData (fst (snd (labelComponents maskData w h (w * h))))
            (fst (findLargest (snd (snd (snd (labelComponents maskData w h (w * h))))))) (w * h))"
proof -
  have "nat (int w * int h) = w * h" by (simp add: nat_mult_distrib)
  moreover have "\<not> int w * int h < 0" by (simp add: zero_le_mult_iff not_less)
  moreover have "\<not> int w * int h > maxArrayLength"
  proof -
    have "int w * int h = int (w * h)" by simp
    also have "\<dots> < 2 ^ 31" using assms by (simp only: of_nat_less_numeral_power_cancel_iff)
    finally show ?thesis by (simp add: maxArrayLength_def)
  qed
  ultimately show ?thesis
    by (simp add: filterLargestComponent_def Let_def split: prod.splits)
qed

text \<open>The filtered mask, when the mask has as many entries as the image has pixels.\<close>

lemma filterLargestComponent_characterised:
  assumes len: "length maskData = w * h" and bound: "w * h < 2 ^ 31"
  shows "\<exists>out. filterLargestComponent maskData (int w) (int h) = Inr out \<and> length out = w * h
           \<and> (fgPixels maskData w h = {} \<longrightarrow> (\<forall>i < w * h. out ! i = background))
           \<and> (fgPixels maskData w h \<noteq> {} \<longrightarrow>
                (\<exists>s\<in>fgPixels maskData w h.
                   (\<forall>t\<in>fgPixels maskData w h.
                      card (component maskData w h t) \<le> card (component maskData w h s))
                 \<and> (\<forall>t\<in>fgPixels maskData w h.
                      card (component maskData w h t) = card (component maskData w h s)
                        \<longrightarrow> Min (component maskData w h s) \<le> Min (component maskData w h t))
                 \<and> (\<forall>i < w * h. out ! i = (if i \<in> component maskData w h s then maskData ! i else background))))"
proof -
  let ?comp = "component maskData w h"
  let ?fg = "fgPixels maskData w h"
  obtain visited labels currentLabel componentSizes where
    lc: "labelComponents maskData w h (w * h) = (visited, labels, currentLabel, componentSizes)"
    by (cases "labelComponents maskData w h (w * h)")
  obtain seeds where "scanInv maskData w h (w * h) seeds (visited, labels, currentLabel, componentSizes)"
    using labelComponents_inv[OF bound, of maskData] lc by auto
  note iv = scanInvD[OF this]
  let ?out = "newMask maskData labels (fst (findLargest componentSizes)) (w * h)"
  have res: "filterLargestComponent maskData (int w) (int h) = Inr ?out"
    by (simp add: filterLargestComponent_nat[OF bound] lc)
  have lout: "length ?out = w * h" by (simp add: newMask_def)
  have rd: "readMask maskData i = Some (maskData ! i)" if "i < w * h" for i
    using that len by (simp add: readMask_def)
  have covered: "\<exists>k < length seeds. t \<in> ?comp (seeds ! k)" if "t \<in> ?fg" for t
  proof -
    have "t < w * h" using that by (simp add: fgPixels_def)
    then have "t \<in> visitedSet visited" using iv(6) that by blast
    then obtain s where "s \<in> set seeds" "t \<in> ?comp s" using iv(5) by blast
    then show ?thesis by (metis in_set_conv_nth)
  qed
  have seedfg: "seeds ! k \<in> ?fg" if "k < length seeds" for k
    using iv(4) that nth_mem by blast
  have seedmin: "Min (?comp (seeds ! k)) = seeds ! k" if "k < length seeds" for k
  proof (rule Min_eqI)
    show "finite (?comp (seeds ! k))" using seedfg[OF that] by (rule finite_component)
    show "seeds ! k \<in> ?comp (seeds ! k)" by (rule component_self)
    show "\<And>j. j \<in> ?comp (seeds ! k) \<Longrightarrow> seeds ! k \<le> j" using iv(4) that nth_mem by blast
  qed
  have empty: "\<forall>i < w * h. ?out ! i = background" if e: "?fg = {}"
  proof -
    have "seeds = []"
    proof (rule ccontr)
      assume "seeds \<noteq> []"
      then have "seeds ! 0 \<in> ?fg" using seedfg[of 0] by simp
      then show False using e by simp
    qed
    then have "componentSizes = []" using iv(9) by simp
    then have ml: "fst (findLargest componentSizes) = - 1" by (simp add: findLargest_def)
    have "labels ! i = 0" if "i < w * h" for i
      using iv(7) that \<open>seeds = []\<close> by simp
    then show ?thesis unfolding ml by (simp add: newMask_nth)
  qed
  have nonempty: "\<exists>s\<in>?fg.
                   (\<forall>t\<in>?fg. card (?comp t) \<le> card (?comp s))
                 \<and> (\<forall>t\<in>?fg. card (?comp t) = card (?comp s) \<longrightarrow> Min (?comp s) \<le> Min (?comp t))
                 \<and> (\<forall>i < w * h. ?out ! i = (if i \<in> ?comp s then maskData ! i else background))"
    if ne: "?fg \<noteq> {}"
  proof -
    obtain t0 where "t0 \<in> ?fg" using ne by blast
    then have sne: "seeds \<noteq> []" using covered by fastforce
    then have "componentSizes \<noteq> []" using iv(9) by simp
    then obtain k where k: "k < length componentSizes"
      "findLargest componentSizes = (fst (componentSizes ! k), int (snd (componentSizes ! k)))"
      "\<forall>j < length componentSizes. snd (componentSizes ! j) \<le> snd (componentSizes ! k)"
      "\<forall>j < k. snd (componentSizes ! j) < snd (componentSizes ! k)"
      using findLargest_first_max by blast
    have lcs: "length componentSizes = length seeds" using iv(9) by simp
    have csn: "componentSizes ! j = (int j + 1, card (?comp (seeds ! j)))" if "j < length seeds" for j
      using iv(9) that by simp
    have kl: "k < length seeds" using k(1) lcs by simp
    let ?s = "seeds ! k"
    have ml: "fst (findLargest componentSizes) = int k + 1" using k(2) csn[OF kl] by simp
    have mx: "card (?comp (seeds ! j)) \<le> card (?comp ?s)" if "j < length seeds" for j
      using k(3) lcs csn[OF that] csn[OF kl] that by (metis snd_conv)
    have first: "card (?comp (seeds ! j)) < card (?comp ?s)" if "j < k" for j
    proof -
      have "j < length seeds" using that kl by simp
      then show ?thesis using k(4) csn[OF kl] csn[of j] that by (metis snd_conv)
    qed
    have p1: "\<forall>t\<in>?fg. card (?comp t) \<le> card (?comp ?s)"
    proof
      fix t assume "t \<in> ?fg"
      then obtain j where j: "j < length seeds" "t \<in> ?comp (seeds ! j)" using covered by blast
      then have "?comp t = ?comp (seeds ! j)" by (simp add: component_eq)
      then show "card (?comp t) \<le> card (?comp ?s)" using mx[OF j(1)] by simp
    qed
    have p2: "\<forall>t\<in>?fg. card (?comp t) = card (?comp ?s) \<longrightarrow> Min (?comp ?s) \<le> Min (?comp t)"
    proof (intro ballI impI)
      fix t assume t: "t \<in> ?fg" and c: "card (?comp t) = card (?comp ?s)"
      obtain j where j: "j < length seeds" "t \<in> ?comp (seeds ! j)" using covered[OF t] by blast
      then have eq: "?comp t = ?comp (seeds ! j)" by (simp add: component_eq)
      have "\<not> j < k" using first[of j] c eq by auto
      then have "k \<le> j" by simp
      then have "seeds ! k \<le> seeds ! j"
        using iv(3) j(1) by (cases "k = j") (auto simp add: sorted_wrt_iff_nth_less less_imp_le)
      then show "Min (?comp ?s) \<le> Min (?comp t)"
        unfolding eq seedmin[OF kl] seedmin[OF j(1)] .
    qed
    have p3: "\<forall>i < w * h. ?out ! i = (if i \<in> ?comp ?s then maskData ! i else background)"
    proof (intro allI impI)
      fix i assume i: "i < w * h"
      have "labels ! i = int k + 1 \<longleftrightarrow> i \<in> ?comp ?s"
      proof
        assume l: "labels ! i = int k + 1"
        show "i \<in> ?comp ?s"
        proof (cases "i \<in> (\<Union>s\<in>set seeds. ?comp s)")
          case True
          then obtain j where j: "j < length seeds" "i \<in> ?comp (seeds ! j)"
            by (metis UN_E in_set_conv_nth)
          then have "labels ! i = int j + 1" using iv(7) i by blast
          then have "j = k" using l by simp
          then show ?thesis using j(2) by simp
        next
          case False
          then have "labels ! i = 0" using iv(7) i by blast
          then show ?thesis using l by simp
        qed
      next
        assume "i \<in> ?comp ?s"
        then show "labels ! i = int k + 1" using iv(7) i kl by blast
      qed
      then show "?out ! i = (if i \<in> ?comp ?s then maskData ! i else background)"
        unfolding ml using i rd[OF i] by (simp add: newMask_nth)
    qed
    show ?thesis using seedfg[OF kl] p1 p2 p3 by blast
  qed
  show ?thesis using res lout empty nonempty by blast
qed


lemma noisyMask_filtered:
  "filterLargestComponent noisyMask 3 2 = Inr [background, background, background, background, Val 5, Val 6]"
  by code_simp



subsection \<open>Idempotence\<close>

lemma isForeground_value:
  assumes "i < length m1" and "i < length m2" and "m1 ! i = m2 ! i"
  shows "isForeground m1 i = isForeground m2 i"
  using assms by (simp add: isForeground_def readMask_def)

lemma background_not_foreground:
  "i < length m \<Longrightarrow> m ! i = background \<Longrightarrow> \<not> isForeground m i"
  by (simp add: isForeground_def readMask_def background_def)

lemma filterLargestComponent_again:
  assumes len: "length maskData = w * h" and bound: "w * h < 2 ^ 31"
    and res: "filterLargestComponent maskData (int w) (int h) = Inr out"
  shows "filterLargestComponent out (int w) (int h) = Inr out"
proof -
  let ?fg = "fgPixels maskData w h"
  let ?comp = "component maskData w h"
  from filterLargestComponent_characterised[OF len bound]
  obtain out' where c: "filterLargestComponent maskData (int w) (int h) = Inr out' \<and> length out' = w * h
           \<and> (?fg = {} \<longrightarrow> (\<forall>i < w * h. out' ! i = background))
           \<and> (?fg \<noteq> {} \<longrightarrow>
                (\<exists>s\<in>?fg.
                   (\<forall>t\<in>?fg. card (?comp t) \<le> card (?comp s))
                 \<and> (\<forall>t\<in>?fg. card (?comp t) = card (?comp s) \<longrightarrow> Min (?comp s) \<le> Min (?comp t))
                 \<and> (\<forall>i < w * h. out' ! i = (if i \<in> ?comp s then maskData ! i else background))))" ..
  then have "out' = out" using res by simp
  then have lout: "length out = w * h"
    and e: "?fg = {} \<longrightarrow> (\<forall>i < w * h. out ! i = background)"
    and ne: "?fg \<noteq> {} \<longrightarrow> (\<exists>s\<in>?fg. \<forall>i < w * h. out ! i = (if i \<in> ?comp s then maskData ! i else background))"
    using c by blast+
  obtain C where C: "C \<subseteq> ?fg" "\<forall>i < w * h. out ! i = (if i \<in> C then maskData ! i else background)"
    and Cc: "C = {} \<or> (\<exists>s\<in>?fg. C = ?comp s)"
  proof (cases "?fg = {}")
    case True
    then have "\<forall>i < w * h. out ! i = (if i \<in> {} then maskData ! i else background)" using e by simp
    then show ?thesis using that[of "{}"] by blast
  next
    case False
    then obtain s where s: "s \<in> ?fg" "\<forall>i < w * h. out ! i = (if i \<in> ?comp s then maskData ! i else background)"
      using ne by blast
    then show ?thesis using that[of "?comp s"] component_subset[OF s(1)] by blast
  qed
  have fg_out: "fgPixels out w h = C"
  proof (intro set_eqI iffI)
    fix i assume "i \<in> fgPixels out w h"
    then have i: "i < w * h" "isForeground out i" by (simp_all add: fgPixels_def)
    show "i \<in> C"
    proof (rule ccontr)
      assume "i \<notin> C"
      then have "out ! i = background" using C(2) i(1) by simp
      then show False using i lout background_not_foreground by simp
    qed
  next
    fix i assume iC: "i \<in> C"
    then have ifg: "i \<in> ?fg" using C(1) by blast
    then have i: "i < w * h" "isForeground maskData i" by (simp_all add: fgPixels_def)
    have "out ! i = maskData ! i" using C(2) i(1) iC by simp
    then have "isForeground out i" using isForeground_value[of i out maskData] i lout len by simp
    then show "i \<in> fgPixels out w h" using i(1) by (simp add: fgPixels_def)
  qed
  from filterLargestComponent_characterised[OF lout bound]
  obtain out2 where c2: "filterLargestComponent out (int w) (int h) = Inr out2 \<and> length out2 = w * h
           \<and> (fgPixels out w h = {} \<longrightarrow> (\<forall>i < w * h. out2 ! i = background))
           \<and> (fgPixels out w h \<noteq> {} \<longrightarrow>
                (\<exists>s\<in>fgPixels out w h.
                   (\<forall>t\<in>fgPixels out w h. card (component out w h t) \<le> card (component out w h s))
                 \<and> (\<forall>t\<in>fgPixels out w h. card (component out w h t) = card (component out w h s)
                        \<longrightarrow> Min (component out w h s) \<le> Min (component out w h t))
                 \<and> (\<forall>i < w * h. out2 ! i = (if i \<in> component out w h s then out ! i else background))))" ..
  then have o2: "filterLargestComponent out (int w) (int h) = Inr out2" "length out2 = w * h"
    and e2: "fgPixels out w h = {} \<longrightarrow> (\<forall>i < w * h. out2 ! i = background)"
    and ne2: "fgPixels out w h \<noteq> {} \<longrightarrow>
                (\<exists>s\<in>fgPixels out w h. \<forall>i < w * h. out2 ! i = (if i \<in> component out w h s then out ! i else background))"
    by blast+
  have "out2 ! i = out ! i" if i: "i < w * h" for i
  proof (cases "C = {}")
    case True
    then show ?thesis using e2 fg_out C(2) i by simp
  next
    case False
    then obtain s where s: "s \<in> ?fg" "C = ?comp s" using Cc by blast
    obtain s' where s': "s' \<in> C" "\<forall>i < w * h. out2 ! i = (if i \<in> component out w h s' then out ! i else background)"
      using ne2 fg_out False by auto
    have sub: "component out w h s' \<subseteq> C"
      using component_subset[of s' out w h] s'(1) fg_out by simp
    have Cs': "C = ?comp s'" using s s'(1) component_eq by blast
    have "j \<in> component out w h s'" if "j \<in> C" for j
    proof -
      have "(s', j) \<in> (fgEdges maskData w h)\<^sup>*" using that Cs' by (simp add: component_def)
      then have "(s', j) \<in> (fgEdges out w h)\<^sup>*"
      proof (induction rule: rtrancl_induct)
        case base
        show ?case by simp
      next
        case (step a b)
        have "a \<in> C" using step(1) Cs' by (simp add: component_def)
        moreover have "b \<in> C" using step(1,2) Cs' by (simp add: component_def rtrancl.rtrancl_into_rtrancl)
        moreover have "adjacent4 w a b" using step(2) by (simp add: fgEdges_def)
        ultimately have "(a, b) \<in> fgEdges out w h" using fg_out by (simp add: fgEdges_def)
        then show ?case using step.IH by (rule rtrancl.rtrancl_into_rtrancl[rotated])
      qed
      then show ?thesis by (simp add: component_def)
    qed
    then have "component out w h s' = C" using sub by blast
    then show ?thesis using s'(2) C(2) i by simp
  qed
  then have "out2 = out" using o2(2) lout by (simp add: list_eq_iff_nth_eq)
  then show ?thesis using o2(1) by simp
qed

text \<open>
  Claim C10: filtering the filtered mask again, with the same width and height, returns it
  unchanged.
\<close>

theorem filterLargestComponent_idempotent:
  assumes "length maskData = w * h" and "w * h < 2 ^ 31"
  shows "\<exists>out. filterLargestComponent maskData (int w) (int h) = Inr out
               \<and> filterLargestComponent out (int w) (int h) = Inr out"
proof -
  obtain out where "filterLargestComponent maskData (int w) (int h) = Inr out"
    using filterLargestComponent_characterised[OF assms] by blast
  then show ?thesis using filterLargestComponent_again[OF assms] by blast
qed

theorem filterLargestComponent_idempotent_witness:
  "length noisyMask = 3 * 2 \<and> (3::nat) * 2 < 2 ^ 31
   \<and> filterLargestComponent noisyMask (int 3) (int 2)
        = Inr [background, background, background, background, Val 5, Val 6]
   \<and> filterLargestComponent [background, background, background, background, Val 5, Val 6] (int 3) (int 2)
        = Inr [background, background, background, background, Val 5, Val 6]"
proof -
  have a: "length noisyMask = 3 * 2" by (simp add: noisyMask_def)
  have b: "(3::nat) * 2 < 2 ^ 31" by simp
  show ?thesis
    using filterLargestComponent_idempotent[OF a b] noisyMask_filtered a by auto
qed

subsection \<open>Malformed arguments\<close>


section \<open>Arguments that do not fit\<close>

subsection \<open>The mask is read only inside the grid\<close>



















end
